theory Spec2Isabelle
  imports Main
begin

section \<open>The kernel console: command registry, parser and line editor (kconsole.c)\<close>

subsection \<open>Faults and sequencing\<close>

text \<open>
  A C function that spins on a lock it can never get, reads or writes outside an array,
  or blocks on an input device that delivers nothing more, has no result. Such runs are
  the \<open>Inl\<close> values of the model; \<open>Inr\<close> carries the result of a run that returns.
\<close>

datatype fault = Deadlock | OutOfBounds | InputExhausted

definition then_do :: "fault + 'a \<Rightarrow> ('a \<Rightarrow> fault + 'b) \<Rightarrow> fault + 'b" where
  "then_do m f = (case m of Inl e \<Rightarrow> Inl e | Inr x \<Rightarrow> f x)"

lemma then_do_Inr [simp]: "then_do (Inr x) f = f x"
  by (simp add: then_do_def)

lemma then_do_Inl [simp]: "then_do (Inl e) f = Inl e"
  by (simp add: then_do_def)

lemma then_do_cong [fundef_cong]:
  "m = m' \<Longrightarrow> (\<And>x. m' = Inr x \<Longrightarrow> f x = f' x) \<Longrightarrow> then_do m f = then_do m' f'"
  by (cases m') (simp_all add: then_do_def)

lemma then_do_eq_Inr:
  "then_do m f = Inr y \<longleftrightarrow> (\<exists>x. m = Inr x \<and> f x = Inr y)"
  by (cases m) simp_all

subsection \<open>C strings\<close>

text \<open>
  A NUL-terminated C string is modelled by the list of its bytes before the terminator,
  so \<open>strlen\<close> is the length of the list and reading at the end of the list reads
  the terminator.
\<close>

definition strlen :: "string \<Rightarrow> nat" where
  "strlen s = length s"

text \<open>
  Modelled from the spec: \<open>strncmp\<close> is declared in the kernel's string header, which
  is not among the sources. The registry compares names with "a comparison truncated to"
  a given length: at most \<open>n\<close> bytes of the two strings are compared, the comparison
  stops at the first difference or at a terminator, and the result is 0 exactly when no
  difference was seen.
\<close>

fun strncmp :: "string \<Rightarrow> string \<Rightarrow> nat \<Rightarrow> int" where
  "strncmp src dst 0 = 0"
| "strncmp [] [] (Suc n) = 0"
| "strncmp [] (d # ds) (Suc n) = - 1"
| "strncmp (c # cs) [] (Suc n) = 1"
| "strncmp (c # cs) (d # ds) (Suc n) =
     (if (of_char c :: nat) < of_char d then - 1
      else if (of_char d :: nat) < of_char c then 1
      else strncmp cs ds n)"

subsection \<open>Command descriptors and the registry\<close>

type_synonym addr = nat

datatype cmd_arg_type = ARG_TYPE_INVALID | ARG_TYPE_INT | ARG_TYPE_STRING | ARG_TYPE_VAR

text \<open>
  \<open>cmd_arg_t\<close>: \<open>buffer\<close> is the pointer to the caller's storage (its text lives in
  the store \<open>strbuf\<close> of the state below), \<open>len\<close> the capacity of that storage.
\<close>

record cmd_arg =
  arg_type :: cmd_arg_type
  buffer :: addr
  len :: nat
  intval :: nat
  vartype :: cmd_arg_type

text \<open>
  \<open>cmd_info_t\<close> without its \<open>link\<close> and \<open>lock\<close> members: the links are the list
  \<open>cmd_head\<close> and the locks the set \<open>locks\<close> of the state. \<open>func\<close> is the address
  of the handler.
\<close>

record cmd_info =
  name :: string
  description :: string
  func :: nat
  argc :: nat
  argv :: "cmd_arg list"

text \<open>
  The state the console works on: the list \<open>cmd_head\<close> of the linked descriptors (by
  address, in list order), the descriptors themselves, the spinlock \<open>cmd_lock\<close> and the
  set of descriptors whose own lock is held, the text of every string buffer, and the
  lines printed so far.
\<close>

record kstate =
  cmd_head :: "addr list"
  cmds :: "addr \<Rightarrow> cmd_info"
  cmd_lock :: bool
  locks :: "addr set"
  strbuf :: "addr \<Rightarrow> string"
  console :: "string list"

text \<open>Taking a spinlock that is held spins for ever; releasing clears it.\<close>

definition lock_cmd_lock :: "kstate \<Rightarrow> fault + kstate" where
  "lock_cmd_lock s = (if cmd_lock s then Inl Deadlock else Inr (s\<lparr>cmd_lock := True\<rparr>))"

definition unlock_cmd_lock :: "kstate \<Rightarrow> kstate" where
  "unlock_cmd_lock s = s\<lparr>cmd_lock := False\<rparr>"

definition spinlock_lock :: "addr \<Rightarrow> kstate \<Rightarrow> fault + kstate" where
  "spinlock_lock a s = (if a \<in> locks s then Inl Deadlock else Inr (s\<lparr>locks := insert a (locks s)\<rparr>))"

definition spinlock_unlock :: "addr \<Rightarrow> kstate \<Rightarrow> kstate" where
  "spinlock_unlock a s = s\<lparr>locks := locks s - {a}\<rparr>"

definition printf :: "string \<Rightarrow> kstate \<Rightarrow> kstate" where
  "printf msg s = s\<lparr>console := console s @ [msg]\<rparr>"

subsection \<open>cmd_register\<close>

text \<open>
  The loop of \<open>cmd_register\<close> over the linked descriptors, entered with \<open>cmd_lock\<close>
  held. It answers \<open>False\<close> where the C function returns 0 from inside the loop (having
  released \<open>cmd_lock\<close>), and \<open>True\<close> when the loop runs to its end.
\<close>

fun cmd_register_scan :: "addr \<Rightarrow> addr list \<Rightarrow> kstate \<Rightarrow> fault + (bool \<times> kstate)" where
  "cmd_register_scan cmd [] s = Inr (True, s)"
| "cmd_register_scan cmd (hlp # rest) s =
     (if hlp = cmd then Inr (False, unlock_cmd_lock s)
      else
        then_do
          (if hlp < cmd then then_do (spinlock_lock hlp s) (spinlock_lock cmd)
           else then_do (spinlock_lock cmd s) (spinlock_lock hlp))
          (\<lambda>s1.
            if strncmp (name (cmds s1 hlp)) (name (cmds s1 cmd))
                 (max (strlen (name (cmds s1 cmd))) (strlen (name (cmds s1 hlp)))) = 0
            then Inr (False, unlock_cmd_lock (spinlock_unlock cmd (spinlock_unlock hlp s1)))
            else cmd_register_scan cmd rest (spinlock_unlock cmd (spinlock_unlock hlp s1))))"

definition cmd_register :: "addr \<Rightarrow> kstate \<Rightarrow> fault + (int \<times> kstate)" where
  "cmd_register cmd s =
     then_do (lock_cmd_lock s) (\<lambda>s0.
     then_do (cmd_register_scan cmd (cmd_head s0) s0) (\<lambda>(not_listed, s1).
       if not_listed
       then Inr (1, unlock_cmd_lock (s1\<lparr>cmd_head := cmd_head s1 @ [cmd]\<rparr>))
       else Inr (0, s1)))"

text \<open>A state in which no lock is held.\<close>

definition unlocked :: "kstate \<Rightarrow> bool" where
  "unlocked s = (\<not> cmd_lock s \<and> locks s = {})"

subsection \<open>What the parser takes from the rest of the kernel\<close>

text \<open>
  The macro \<open>isspace\<close>, the conversion \<open>atoi\<close>, the symbol table, the error codes of
  \<open>errno.h\<close>, the size \<open>MAX_SYMBOL_NAME\<close> (at least 1, as the size of an array) and the
  kernel's memory read as native words are not part of kconsole.c: they are parameters.
  \<open>symtab_addr_lookup\<close> answers its return code and the address it stores,
  \<open>symtab_print_search\<close> the lines it prints, and \<open>symtab_compl\<close> its return
  value, the string it leaves in its argument and the text it prints.
\<close>

record env =
  isspace :: "char \<Rightarrow> bool"
  atoi :: "string \<Rightarrow> nat"
  symtab_addr_lookup :: "string \<Rightarrow> int \<times> nat"
  symtab_print_search :: "string \<Rightarrow> string list"
  symtab_compl :: "string \<Rightarrow> int \<times> string \<times> string"
  mem_word :: "nat \<Rightarrow> nat"
  ENOENT :: int
  EOVERFLOW :: int
  MAX_SYMBOL_NAME :: nat

text \<open>Reading a C string at an index: at its end the terminator is read.\<close>

definition cs_at :: "string \<Rightarrow> nat \<Rightarrow> char" where
  "cs_at s i = (if i < length s then s ! i else CHR 0x00)"

text \<open>
  Modelled from the spec: \<open>strncpy\<close> is the kernel's own and not among the sources. A
  copied string is "truncated to its capacity minus one, NUL/sentinel-terminated": of the
  \<open>n\<close> bytes it may write (\<open>n\<close> at least 1) the last one is the terminator, so the
  destination holds the first \<open>n - 1\<close> bytes of the source, or all of a shorter source.
\<close>

definition strncpy :: "string \<Rightarrow> nat \<Rightarrow> string" where
  "strncpy src n = take (n - 1) src"

definition newline :: char where
  "newline = CHR 0x0A"

subsection \<open>parse_argument\<close>

text \<open>
  The loop of \<open>parse_argument\<close>, with its variables \<open>i\<close>, \<open>*start\<close> and
  \<open>found_start\<close>; it answers \<open>found_start\<close>, \<open>*start\<close> and the final \<open>i\<close>.
\<close>

function parse_argument_loop ::
  "env \<Rightarrow> string \<Rightarrow> nat \<Rightarrow> nat \<Rightarrow> nat \<Rightarrow> bool \<Rightarrow> bool \<times> nat \<times> nat" where
  "parse_argument_loop E cmdline cmdlen i start found_start =
     (if i < cmdlen then
        (if \<not> found_start then
           (if isspace E (cmdline ! i)
            then parse_argument_loop E cmdline cmdlen (i + 1) (start + 1) found_start
            else parse_argument_loop E cmdline cmdlen (i + 1) start True)
         else
           (if isspace E (cmdline ! i) then (found_start, start, i)
            else parse_argument_loop E cmdline cmdlen (i + 1) start found_start))
      else (found_start, start, i))"
  by pat_completeness auto
termination
  by (relation "measure (\<lambda>(E, cmdline, cmdlen, i, start, found_start). cmdlen - i)") auto

declare parse_argument_loop.simps [simp del]

text \<open>
  \<open>parse_argument cmdline len start\<close> answers the return value and the final \<open>*start\<close>
  and \<open>*end\<close>. \<open>*end = i - 1\<close>: the loop ends with \<open>i = 0\<close> only when nothing was
  found, and then no caller reads \<open>*end\<close>.
\<close>

definition parse_argument :: "env \<Rightarrow> string \<Rightarrow> nat \<Rightarrow> nat \<Rightarrow> bool \<times> nat \<times> nat" where
  "parse_argument E cmdline cmdlen start =
     (case parse_argument_loop E cmdline cmdlen start start False of
        (found_start, start', i) \<Rightarrow> (found_start, start', i - 1))"

subsection \<open>parse_int_arg\<close>

text \<open>
  \<open>parse_int_arg text len result\<close> answers the return value, the word at \<open>*result\<close>
  afterwards and the lines printed. \<open>text\<close> is the command line from the first byte of
  the token on, \<open>len\<close> (at least 1) the length of the token.

  Every case of the \<open>switch\<close> on the return code of the symbol lookup returns -1, the
  \<open>default\<close> case too, so the statements after the \<open>switch\<close> that would store the
  symbol's address or the words it points to are never reached and have no branch here.
\<close>

definition parse_int_arg :: "env \<Rightarrow> string \<Rightarrow> nat \<Rightarrow> nat \<Rightarrow> int \<times> nat \<times> string list" where
  "parse_int_arg E text tlen result =
     (let isaddr = (cs_at text 0 = CHR ''&'');
          isptr = (\<not> isaddr \<and> cs_at text 0 = CHR ''*'');
          text1 = (if isaddr \<or> isptr then drop 1 text else text);
          len1 = (if isaddr \<or> isptr then tlen - 1 else tlen)
      in
        if (of_char (cs_at text1 0) :: nat) < 48 \<or> (57 :: nat) < of_char (cs_at text1 0) then
          (let symname = strncpy text1 (min (len1 + 1) (MAX_SYMBOL_NAME E));
               rc = fst (symtab_addr_lookup E symname)
           in
             if rc = ENOENT E then
               (- 1, result, [''Symbol '' @ symname @ '' not found.'' @ [newline]])
             else if rc = EOVERFLOW E then
               (- 1, result,
                (''Duplicate symbol '' @ symname @ ''.'' @ [newline]) # symtab_print_search E symname)
             else (- 1, result, [''No symbol information available.'' @ [newline]]))
        else
          (let r = atoi E text1 in (0, if isptr then mem_word E r else r, [])))"

subsection \<open>parse_cmdline\<close>

text \<open>
  The lookup loop of \<open>parse_cmdline\<close>, entered with \<open>cmd_lock\<close> held: the first linked
  descriptor whose name compares equal to the typed token at \<open>cmdline[start..end]\<close>, with
  its lock still held.
\<close>

fun find_cmd :: "string \<Rightarrow> nat \<Rightarrow> nat \<Rightarrow> addr list \<Rightarrow> kstate \<Rightarrow> fault + (addr option \<times> kstate)" where
  "find_cmd cmdline start end [] s = Inr (None, s)"
| "find_cmd cmdline start end (hlp # rest) s =
     then_do (spinlock_lock hlp s) (\<lambda>s1.
       if strncmp (name (cmds s1 hlp)) (drop start cmdline)
            (max (strlen (name (cmds s1 hlp))) (end - start + 1)) = 0
       then Inr (Some hlp, s1)
       else find_cmd cmdline start end rest (spinlock_unlock hlp s1))"

text \<open>
  The body of the \<open>switch\<close> on the type of one argument: \<open>text\<close> is the command line
  from the first byte of the token on, \<open>n\<close> its length \<open>end - start + 1\<close>. It answers
  the value of \<open>error\<close>, the argument afterwards, the string buffer written (its address
  and new text) and the lines printed. A buffer of capacity 0 is written outside its
  bounds.
\<close>

definition convert_arg ::
  "env \<Rightarrow> string \<Rightarrow> nat \<Rightarrow> cmd_arg \<Rightarrow> fault + (int \<times> cmd_arg \<times> (addr \<times> string) option \<times> string list)" where
  "convert_arg E text n a =
     (case arg_type a of
        ARG_TYPE_STRING \<Rightarrow>
          if len a = 0 then Inl OutOfBounds
          else Inr (0, a,
                 Some (buffer a, take (min n (len a - 1)) (strncpy text (min (n + 1) (len a)))), [])
      | ARG_TYPE_INT \<Rightarrow>
          (case parse_int_arg E text n (intval a) of
             (rc, r, printed) \<Rightarrow> Inr (if rc \<noteq> 0 then 1 else 0, a\<lparr>intval := r\<rparr>, None, printed))
      | ARG_TYPE_VAR \<Rightarrow>
          if n \<noteq> 1 \<and> cs_at text 0 = CHR 0x22 \<and> cs_at text (n - 1) = CHR 0x22 then
            (if len a = 0 then Inl OutOfBounds
             else Inr (0, a\<lparr>intval := buffer a, vartype := ARG_TYPE_STRING\<rparr>,
                    Some (buffer a,
                      take (min (n - 1) (len a - 1)) (strncpy (drop 1 text) (min (n - 1) (len a)))),
                    []))
          else
            (case parse_int_arg E text n (intval a) of
               (rc, r, printed) \<Rightarrow>
                 if rc = 0 then Inr (0, a\<lparr>intval := r, vartype := ARG_TYPE_INT\<rparr>, None, printed)
                 else Inr (1, a\<lparr>intval := r\<rparr>, None,
                        printed @ [''Unrecognized variable argument.'' @ [newline]]))
      | ARG_TYPE_INVALID \<Rightarrow> Inr (1, a, None, [''invalid argument type'' @ [newline]]))"

text \<open>Storing what \<open>convert_arg\<close> answers for \<open>cmd->argv[i]\<close>.\<close>

definition store_arg ::
  "addr \<Rightarrow> nat \<Rightarrow> cmd_arg \<Rightarrow> (addr \<times> string) option \<Rightarrow> string list \<Rightarrow> kstate \<Rightarrow> kstate" where
  "store_arg cmd i a w printed s =
     s\<lparr>cmds := (cmds s)(cmd := (cmds s cmd)\<lparr>argv := (argv (cmds s cmd))[i := a]\<rparr>),
       strbuf := (case w of None \<Rightarrow> strbuf s | Some (b, t) \<Rightarrow> (strbuf s)(b := t)),
       console := console s @ printed\<rparr>"

text \<open>
  The loop of \<open>parse_cmdline\<close> over the declared arguments, with its variables \<open>i\<close>,
  \<open>end\<close> and \<open>error\<close>; \<open>n\<close> is \<open>cmd->argc\<close>, which the loop does not write. It answers \<open>None\<close> where the C function returns from inside
  the loop ("Too few arguments."), and the final \<open>error\<close> and \<open>end\<close> otherwise.
\<close>

function parse_args ::
  "env \<Rightarrow> string \<Rightarrow> nat \<Rightarrow> addr \<Rightarrow> nat \<Rightarrow> nat \<Rightarrow> int \<Rightarrow> nat \<Rightarrow> kstate
     \<Rightarrow> fault + ((int \<times> nat) option \<times> kstate)" where
  "parse_args E cmdline cmdlen cmd n i error end s =
     (if i < n then
        (case parse_argument E cmdline cmdlen (end + 1) of
           (found, start, end') \<Rightarrow>
             if \<not> found then
               Inr (None, spinlock_unlock cmd (printf (''Too few arguments.'' @ [newline]) s))
             else if i < length (argv (cmds s cmd)) then
               then_do (convert_arg E (drop start cmdline) (end' - start + 1) (argv (cmds s cmd) ! i))
                 (\<lambda>(error', a, w, printed).
                    parse_args E cmdline cmdlen cmd n (i + 1) error' end' (store_arg cmd i a w printed s))
             else Inl OutOfBounds)
      else Inr (Some (error, end), s))"
  by pat_completeness auto
termination
  by (relation "measure (\<lambda>(E, cmdline, cmdlen, cmd, n, i, error, end, s). n - i)") auto

declare parse_args.simps [simp del]

text \<open>
  What \<open>parse_cmdline\<close> does after the loop over the arguments: \<open>r\<close> is what the
  loop answered, \<open>None\<close> when the function has returned from inside the loop.
\<close>

definition parse_cmdline_tail ::
  "env \<Rightarrow> string \<Rightarrow> nat \<Rightarrow> addr \<Rightarrow> (int \<times> nat) option \<Rightarrow> kstate \<Rightarrow> fault + (addr option \<times> kstate)" where
  "parse_cmdline_tail E cmdline cmdlen cmd r s =
     (case r of
        None \<Rightarrow> Inr (None, s)
      | Some (error, end) \<Rightarrow>
          if error \<noteq> 0 then Inr (None, spinlock_unlock cmd s)
          else if fst (parse_argument E cmdline cmdlen (end + 1)) then
            Inr (None, spinlock_unlock cmd (printf (''Too many arguments.'' @ [newline]) s))
          else Inr (Some cmd, spinlock_unlock cmd s))"

definition parse_cmdline :: "env \<Rightarrow> string \<Rightarrow> nat \<Rightarrow> kstate \<Rightarrow> fault + (addr option \<times> kstate)" where
  "parse_cmdline E cmdline cmdlen s =
     (case parse_argument E cmdline cmdlen 0 of
        (found, start, end) \<Rightarrow>
          if \<not> found then Inr (None, s)
          else
            then_do (lock_cmd_lock s) (\<lambda>s0.
            then_do (find_cmd cmdline start end (cmd_head s0) s0) (\<lambda>(r, s1).
              case r of
                None \<Rightarrow> Inr (None, printf (''Unknown command.'' @ [newline]) (unlock_cmd_lock s1))
              | Some cmd \<Rightarrow>
                  then_do
                    (parse_args E cmdline cmdlen cmd (argc (cmds s1 cmd)) 0 0 end (unlock_cmd_lock s1))
                    (\<lambda>(r', s2). parse_cmdline_tail E cmdline cmdlen cmd r' s2))))"

subsection \<open>The loop of kconsole\<close>

text \<open>
  The statements of the \<open>while (true)\<close> loop of \<open>kconsole\<close> that follow the call of
  \<open>clever_readline\<close>; \<open>cmdline\<close> is the line read. It answers \<open>False\<close> at the
  \<open>break\<close> and \<open>True\<close> where the loop goes on to read the next line, and the state
  then. The handlers are not part of kconsole.c: \<open>handler f av s\<close> is the call
  \<open>f(av)\<close> of the function at the address \<open>f\<close> in the state \<open>s\<close>, and answers the
  state in which the handler returns. Its return value is discarded.
\<close>

definition kconsole_body ::
  "env \<Rightarrow> (nat \<Rightarrow> cmd_arg list \<Rightarrow> kstate \<Rightarrow> fault + kstate) \<Rightarrow> bool \<Rightarrow> string \<Rightarrow> kstate
     \<Rightarrow> fault + (bool \<times> kstate)" where
  "kconsole_body E handler kcon cmdline s =
     (let len = strlen cmdline in
        if len = 0 then Inr (True, s)
        else if \<not> kcon \<and> len = 4 \<and> strncmp cmdline ''exit'' 4 = 0 then Inr (False, s)
        else
          then_do (parse_cmdline E cmdline len s) (\<lambda>(cmd_info, s1).
            case cmd_info of
              None \<Rightarrow> Inr (True, s1)
            | Some cmd \<Rightarrow>
                then_do (handler (func (cmds s1 cmd)) (argv (cmds s1 cmd)) s1)
                  (\<lambda>s2. Inr (True, s2))))"

subsection \<open>Tokens, as the specification describes them\<close>

text \<open>
  "Skip leading whitespace, an argument is a maximal run of non-whitespace bytes; repeat
  to find successive tokens." \<open>after_spaces\<close> skips the whitespace a text starts with,
  \<open>after_token\<close> the bytes up to the next whitespace. \<open>token_tails s\<close> lists, for
  every token of \<open>s\<close>, the text of \<open>s\<close> from the first byte of that token on, and
  \<open>tokens s\<close> the tokens themselves.
\<close>

definition after_spaces :: "env \<Rightarrow> string \<Rightarrow> string" where
  "after_spaces E s = dropWhile (isspace E) s"

definition after_token :: "env \<Rightarrow> string \<Rightarrow> string" where
  "after_token E s = dropWhile (\<lambda>c. \<not> isspace E c) s"

function token_tails :: "env \<Rightarrow> string \<Rightarrow> string list" where
  "token_tails E s =
     (if after_spaces E s = [] then []
      else after_spaces E s # token_tails E (after_token E (after_spaces E s)))"
  by pat_completeness auto
termination
proof (relation "measure (\<lambda>(E, s). length s)")
  show "wf (measure (\<lambda>(E, s). length s))" by simp
next
  fix E :: env and s :: string
  assume "after_spaces E s \<noteq> []"
  then obtain c r where cr: "after_spaces E s = c # r"
    by (cases "after_spaces E s") auto
  then have "\<not> isspace E c"
    unfolding after_spaces_def by (metis hd_dropWhile list.sel(1) list.distinct(1))
  then have "length (after_token E (c # r)) \<le> length r"
    by (simp add: after_token_def length_dropWhile_le)
  moreover have "length (c # r) \<le> length s"
    using cr [symmetric] by (simp add: after_spaces_def length_dropWhile_le)
  ultimately show "((E, after_token E (after_spaces E s)), (E, s)) \<in> measure (\<lambda>(E, s). length s)"
    by (simp add: cr)
qed

declare token_tails.simps [simp del]

definition tokens :: "env \<Rightarrow> string \<Rightarrow> string list" where
  "tokens E s = map (takeWhile (\<lambda>c. \<not> isspace E c)) (token_tails E s)"

text \<open>
  A descriptor whose argument array has an entry for each of its \<open>argc\<close> arguments and
  whose string buffers have room for the terminator at least.
\<close>

definition arg_ok :: "cmd_arg \<Rightarrow> bool" where
  "arg_ok a = (arg_type a = ARG_TYPE_INT \<or> arg_type a = ARG_TYPE_INVALID \<or> 0 < len a)"

definition wf_cmd :: "cmd_info \<Rightarrow> bool" where
  "wf_cmd ci = (argc ci \<le> length (argv ci) \<and> list_all arg_ok (argv ci))"

text \<open>What a caller of \<open>parse_cmdline\<close> sees: the descriptor, the lines printed, the locks.\<close>

definition returned ::
  "fault + (addr option \<times> kstate) \<Rightarrow> fault + (addr option \<times> string list \<times> bool \<times> addr set)" where
  "returned r =
     (case r of Inl f \<Rightarrow> Inl f | Inr (c, s) \<Rightarrow> Inr (c, console s, cmd_lock s, locks s))"

subsection \<open>The line editor: its memory\<close>

text \<open>
  \<open>MAX_CMDLINE\<close> and \<open>KCONSOLE_HISTORY\<close> are defined in a header that is not among the
  sources: they are parameters.
\<close>

record limits =
  MAX_CMDLINE :: nat
  KCONSOLE_HISTORY :: nat

text \<open>
  The variables of \<open>clever_readline\<close>. \<open>history\<close> is the array
  \<open>history[KCONSOLE_HISTORY][MAX_CMDLINE]\<close> as it lies in memory, row after row, and
  \<open>tmp\<close> the array \<open>tmp[MAX_CMDLINE + 1]\<close>; both keep their bytes from one call to
  the next, as does \<open>histposition\<close>. \<open>current\<close> is the pointer of that name, as the
  offset into \<open>history\<close> of the byte it points to. \<open>terminal\<close> collects the bytes
  written with \<open>putchar\<close> and \<open>printf\<close>.
\<close>

record editor =
  history :: "char list"
  histposition :: int
  tmp :: "char list"
  current :: int
  curlen :: int
  position :: int
  terminal :: string

text \<open>
  Reading and writing \<open>current[i]\<close> and \<open>tmp[i]\<close>. An access outside the array is a
  fault; inside \<open>history\<close> it may leave the row \<open>current\<close> points to.
\<close>

definition arr_read :: "char list \<Rightarrow> int \<Rightarrow> fault + char" where
  "arr_read xs i = (if 0 \<le> i \<and> i < int (length xs) then Inr (xs ! nat i) else Inl OutOfBounds)"

definition arr_write :: "char list \<Rightarrow> int \<Rightarrow> char \<Rightarrow> fault + char list" where
  "arr_write xs i c =
     (if 0 \<le> i \<and> i < int (length xs) then Inr (xs[nat i := c]) else Inl OutOfBounds)"

text \<open>\<open>strlen\<close> of the bytes from offset \<open>i\<close> on: it reads until it meets a NUL.\<close>

definition arr_strlen :: "char list \<Rightarrow> int \<Rightarrow> fault + int" where
  "arr_strlen xs i =
     (if 0 \<le> i \<and> CHR 0x00 \<in> set (drop (nat i) xs)
      then Inr (int (length (takeWhile (\<lambda>c. c \<noteq> CHR 0x00) (drop (nat i) xs))))
      else Inl OutOfBounds)"

definition cur_read :: "editor \<Rightarrow> int \<Rightarrow> fault + char" where
  "cur_read s i = arr_read (history s) (current s + i)"

definition cur_write :: "int \<Rightarrow> char \<Rightarrow> editor \<Rightarrow> fault + editor" where
  "cur_write i c s =
     then_do (arr_write (history s) (current s + i) c) (\<lambda>h. Inr (s\<lparr>history := h\<rparr>))"

definition cur_strlen :: "editor \<Rightarrow> fault + int" where
  "cur_strlen s = arr_strlen (history s) (current s)"

definition tmp_read :: "editor \<Rightarrow> int \<Rightarrow> fault + char" where
  "tmp_read s i = arr_read (tmp s) i"

definition tmp_write :: "int \<Rightarrow> char \<Rightarrow> editor \<Rightarrow> fault + editor" where
  "tmp_write i c s = then_do (arr_write (tmp s) i c) (\<lambda>t. Inr (s\<lparr>tmp := t\<rparr>))"

definition putchar :: "char \<Rightarrow> editor \<Rightarrow> editor" where
  "putchar c s = s\<lparr>terminal := terminal s @ [c]\<rparr>"

definition print :: "string \<Rightarrow> editor \<Rightarrow> editor" where
  "print text s = s\<lparr>terminal := terminal s @ text\<rparr>"

definition rdln_print_c :: "char \<Rightarrow> int \<Rightarrow> editor \<Rightarrow> editor" where
  "rdln_print_c ch count s = s\<lparr>terminal := terminal s @ replicate (nat count) ch\<rparr>"

text \<open>\<open>for (i = from; i < to; i++) putchar(current[i]);\<close>\<close>

function echo :: "int \<Rightarrow> int \<Rightarrow> editor \<Rightarrow> fault + editor" where
  "echo i to s =
     (if i < to then then_do (cur_read s i) (\<lambda>c. echo (i + 1) to (putchar c s)) else Inr s)"
  by pat_completeness auto
termination
  by (relation "measure (\<lambda>(i, to, s). nat (to - i))") auto

declare echo.simps [simp del]

subsection \<open>insert_char\<close>

text \<open>\<open>for (i = from; i > pos; i--) str[i] = str[i - 1];\<close>\<close>

function shift_right :: "int \<Rightarrow> int \<Rightarrow> editor \<Rightarrow> fault + editor" where
  "shift_right i pos s =
     (if pos < i then
        then_do (cur_read s (i - 1)) (\<lambda>c.
        then_do (cur_write i c s) (\<lambda>s1. shift_right (i - 1) pos s1))
      else Inr s)"
  by pat_completeness auto
termination
  by (relation "measure (\<lambda>(i, pos, s). nat (i - pos))") auto

declare shift_right.simps [simp del]

definition insert_char :: "char \<Rightarrow> int \<Rightarrow> editor \<Rightarrow> fault + editor" where
  "insert_char ch pos s =
     then_do (cur_strlen s) (\<lambda>n.
     then_do (shift_right n pos s) (\<lambda>s1. cur_write pos ch s1))"

subsection \<open>Completion of command names\<close>

text \<open>
  \<open>cmdtab_search_one name startpos\<close>, on the list from \<open>*startpos\<close> on: the rest of
  the first name that begins with \<open>name\<close>, and the list from its descriptor on (the
  final \<open>*startpos\<close>); \<open>None\<close> is the \<open>NULL\<close> it returns at the end of the list.
\<close>

fun cmdtab_search_one :: "kstate \<Rightarrow> string \<Rightarrow> addr list \<Rightarrow> (string \<times> addr list) option" where
  "cmdtab_search_one K nm [] = None"
| "cmdtab_search_one K nm (h # rest) =
     (if strlen (name (cmds K h)) < strlen nm then cmdtab_search_one K nm rest
      else if strncmp (name (cmds K h)) nm (strlen nm) = 0
      then Some (drop (strlen nm) (name (cmds K h)), h # rest)
      else cmdtab_search_one K nm rest)"

lemma cmdtab_search_one_pos:
  "cmdtab_search_one K nm xs = Some (txt, pos) \<Longrightarrow> pos \<noteq> [] \<and> length pos \<le> length xs"
  by (induction xs) (auto split: if_splits)

lemma cmdtab_search_one_tl:
  assumes "cmdtab_search_one K nm xs = Some (txt, pos)"
  shows "length (tl pos) < length xs"
proof -
  from cmdtab_search_one_pos [OF assms] have "pos \<noteq> []" and "length pos \<le> length xs"
    by simp_all
  then show ?thesis by (cases pos) simp_all
qed

text \<open>The scan of two strings for their common beginning, ended by \<open>output[i] = '\0'\<close>.\<close>

fun common_begin :: "string \<Rightarrow> string \<Rightarrow> string" where
  "common_begin (a # as) (b # bs) = (if a = b then a # common_begin as bs else [])"
| "common_begin as bs = []"

text \<open>
  The first loop of \<open>cmdtab_compl\<close>, with \<open>startpos\<close>, \<open>found\<close> and the string in
  \<open>output\<close>, an array of 129 bytes.
\<close>

function compl_common :: "kstate \<Rightarrow> string \<Rightarrow> addr list \<Rightarrow> int \<Rightarrow> string \<Rightarrow> fault + (int \<times> string)" where
  "compl_common K nm startpos found output =
     (case cmdtab_search_one K nm startpos of
        None \<Rightarrow> Inr (found, output)
      | Some (foundtxt, pos) \<Rightarrow>
          if found = 0 then
            (if 128 < length foundtxt then Inl OutOfBounds
             else compl_common K nm (tl pos) (found + 1) foundtxt)
          else compl_common K nm (tl pos) (found + 1) (common_begin output foundtxt))"
  by pat_completeness auto
termination
  by (relation "measure (\<lambda>(K, nm, startpos, found, output). length startpos)")
    (auto dest!: cmdtab_search_one_tl)

declare compl_common.simps [simp del]

text \<open>The second loop of \<open>cmdtab_compl\<close>: the lines of the table it prints.\<close>

function compl_table :: "kstate \<Rightarrow> string \<Rightarrow> addr list \<Rightarrow> string" where
  "compl_table K nm startpos =
     (case cmdtab_search_one K nm startpos of
        None \<Rightarrow> []
      | Some (foundtxt, pos) \<Rightarrow>
          name (cmds K (hd pos)) @ '' - '' @ description (cmds K (hd pos)) @ [newline]
            @ compl_table K nm (tl pos))"
  by pat_completeness auto
termination
  by (relation "measure (\<lambda>(K, nm, startpos). length startpos)")
    (auto dest!: cmdtab_search_one_tl)

declare compl_table.simps [simp del]

text \<open>
  \<open>cmdtab_compl name\<close> answers the number of matches, the string it leaves in \<open>name\<close>
  (\<open>None\<close> when it does not write it) and the text it prints. Each scan takes and
  releases \<open>cmd_lock\<close>; the registry is only read.
\<close>

definition cmdtab_compl :: "kstate \<Rightarrow> string \<Rightarrow> fault + (int \<times> string option \<times> string)" where
  "cmdtab_compl K nm =
     (if cmd_lock K then Inl Deadlock
      else
        then_do (compl_common K nm (cmd_head K) 0 []) (\<lambda>(found, output).
          if found = 0 then Inr (0, None, [])
          else Inr (found, Some (strncpy output 128),
                 if 1 < found \<and> strlen output = 0
                 then [newline] @ compl_table K nm (cmd_head K) else [])))"

subsection \<open>The keys of the line editor\<close>

text \<open>\<open>for (i = from; i < to; i++) current[i - 1] = current[i];\<close> (backspace)\<close>

function shift_left :: "int \<Rightarrow> int \<Rightarrow> editor \<Rightarrow> fault + editor" where
  "shift_left i to s =
     (if i < to then
        then_do (cur_read s i) (\<lambda>c.
        then_do (cur_write (i - 1) c s) (\<lambda>s1. shift_left (i + 1) to s1))
      else Inr s)"
  by pat_completeness auto
termination
  by (relation "measure (\<lambda>(i, to, s). nat (to - i))") auto

declare shift_left.simps [simp del]

definition rl_backspace :: "editor \<Rightarrow> fault + editor" where
  "rl_backspace s =
     (if position s = 0 then Inr s
      else
        then_do (shift_left (position s) (curlen s) s) (\<lambda>s1.
        then_do
          (echo (position s1 - 1) (curlen s1 - 1)
             (putchar (CHR 0x08) (s1\<lparr>curlen := curlen s1 - 1, position := position s1 - 1\<rparr>)))
          (\<lambda>s2. Inr (rdln_print_c (CHR 0x08) (curlen s2 - position s2 + 1)
                       (putchar (CHR '' '') s2)))))"

text \<open>
  \<open>for (i = from; i < to; i++) { putchar(current[i]); current[i - 1] = current[i]; }\<close>
  (delete)
\<close>

function shift_left_echo :: "int \<Rightarrow> int \<Rightarrow> editor \<Rightarrow> fault + editor" where
  "shift_left_echo i to s =
     (if i < to then
        then_do (cur_read s i) (\<lambda>c.
        then_do (cur_write (i - 1) c (putchar c s)) (\<lambda>s1. shift_left_echo (i + 1) to s1))
      else Inr s)"
  by pat_completeness auto
termination
  by (relation "measure (\<lambda>(i, to, s). nat (to - i))") auto

declare shift_left_echo.simps [simp del]

definition rl_delete :: "editor \<Rightarrow> fault + editor" where
  "rl_delete s =
     (if position s = curlen s then Inr s
      else
        then_do (shift_left_echo (position s + 1) (curlen s) s) (\<lambda>s1.
          Inr ((rdln_print_c (CHR 0x08) (curlen s1 - position s1) (putchar (CHR '' '') s1))
                 \<lparr>curlen := curlen s1 - 1\<rparr>)))"

definition rl_home :: "editor \<Rightarrow> editor" where
  "rl_home s = (rdln_print_c (CHR 0x08) (position s) s)\<lparr>position := 0\<rparr>"

definition rl_end :: "editor \<Rightarrow> fault + editor" where
  "rl_end s = then_do (echo (position s) (curlen s) s) (\<lambda>s1. Inr (s1\<lparr>position := curlen s1\<rparr>))"

definition rl_left :: "editor \<Rightarrow> editor" where
  "rl_left s =
     (if 0 < position s then (putchar (CHR 0x08) s)\<lparr>position := position s - 1\<rparr> else s)"

definition rl_right :: "editor \<Rightarrow> fault + editor" where
  "rl_right s =
     (if position s < curlen s
      then then_do (cur_read s (position s))
             (\<lambda>c. Inr ((putchar c s)\<lparr>position := position s + 1\<rparr>))
      else Inr s)"

text \<open>
  Up (\<open>up\<close>) and down: the history cursor moves by one and wraps, \<open>current\<close> points to
  the row it names, and the string found there becomes the line.
\<close>

definition rl_history :: "limits \<Rightarrow> bool \<Rightarrow> editor \<Rightarrow> fault + editor" where
  "rl_history L up s =
     (let s1 = rdln_print_c (CHR 0x08) (curlen s)
                 (rdln_print_c (CHR '' '') (curlen s) (rdln_print_c (CHR 0x08) (position s) s));
          hp = (if up then histposition s - 1 else histposition s + 1);
          hp' = (if hp < 0 then int (KCONSOLE_HISTORY L) - 1
                 else hp mod int (KCONSOLE_HISTORY L));
          s2 = s1\<lparr>histposition := hp', current := hp' * int (MAX_CMDLINE L)\<rparr>
      in
        then_do (cur_strlen s2) (\<lambda>n.
          Inr ((print (take (nat n) (drop (nat (current s2)) (history s2))) s2)
                 \<lparr>curlen := n, position := n\<rparr>)))"

text \<open>Any other byte: inserted at the caret unless the line is full.\<close>

definition rl_insert :: "limits \<Rightarrow> char \<Rightarrow> editor \<Rightarrow> fault + editor" where
  "rl_insert L c s =
     (if int (MAX_CMDLINE L) \<le> curlen s then Inr s
      else
        then_do (insert_char c (position s) s) (\<lambda>s1.
        then_do (echo (position s1) (curlen s1 + 1) (s1\<lparr>curlen := curlen s1 + 1\<rparr>)) (\<lambda>s2.
          Inr (rdln_print_c (CHR 0x08) (curlen s2 - (position s2 + 1))
                 (s2\<lparr>position := position s2 + 1\<rparr>)))))"

subsection \<open>The tabulator\<close>

text \<open>
  \<open>for (; position < curlen && current[position] != ' '; position++)
  putchar(current[position]);\<close>
\<close>

function word_end :: "editor \<Rightarrow> fault + editor" where
  "word_end s =
     (if position s < curlen s then
        then_do (cur_read s (position s)) (\<lambda>c.
          if c \<noteq> CHR '' '' then word_end (putchar c (s\<lparr>position := position s + 1\<rparr>))
          else Inr s)
      else Inr s)"
  by pat_completeness auto
termination
  by (relation "measure (\<lambda>s. nat (curlen s - position s))") (auto simp add: putchar_def)

declare word_end.simps [simp del]

text \<open>\<open>for (i = from; i >= 0 && current[i] != ' '; i--) ;\<close>: the final \<open>i\<close>.\<close>

function word_start :: "editor \<Rightarrow> int \<Rightarrow> fault + int" where
  "word_start s i =
     (if 0 \<le> i then
        then_do (cur_read s i) (\<lambda>c. if c \<noteq> CHR '' '' then word_start s (i - 1) else Inr i)
      else Inr i)"
  by pat_completeness auto
termination
  by (relation "measure (\<lambda>(s, i). nat (i + 1))") auto

declare word_start.simps [simp del]

text \<open>\<open>for (i = from; tmp[i]; i++) tmp[i - 1] = tmp[i];\<close>: the state and the final \<open>i\<close>.\<close>

function tmp_shift :: "int \<Rightarrow> editor \<Rightarrow> fault + (editor \<times> int)" where
  "tmp_shift i s =
     then_do (tmp_read s i) (\<lambda>c.
       if c \<noteq> CHR 0x00 then then_do (tmp_write (i - 1) c s) (\<lambda>s1. tmp_shift (i + 1) s1)
       else Inr (s, i))"
  by pat_completeness auto
termination
  by (relation "measure (\<lambda>(i, s). nat (int (length (tmp s)) - i))")
    (auto simp add: tmp_read_def tmp_write_def arr_read_def arr_write_def then_do_eq_Inr
      split: if_splits)

declare tmp_shift.simps [simp del]

text \<open>
  \<open>strncpy(tmp, current + src, len)\<close>, the kernel's own \<open>strncpy\<close> byte by byte: it
  copies until it has copied a NUL or \<open>len\<close> bytes, and in the second case ends the
  copy with \<open>tmp[len - 1] = '\0'\<close>. \<open>k\<close> counts the bytes copied.
\<close>

function strncpy_tmp :: "int \<Rightarrow> nat \<Rightarrow> nat \<Rightarrow> editor \<Rightarrow> fault + editor" where
  "strncpy_tmp src n k s =
     (if k < n then
        then_do (cur_read s (src + int k)) (\<lambda>c.
        then_do (tmp_write (int k) c s) (\<lambda>s1.
          if c = CHR 0x00 then Inr s1 else strncpy_tmp src n (k + 1) s1))
      else tmp_write (int k - 1) (CHR 0x00) s)"
  by pat_completeness auto
termination
  by (relation "measure (\<lambda>(src, n, k, s). n - k)") auto

declare strncpy_tmp.simps [simp del]

text \<open>Storing a string and its terminator at the beginning of \<open>tmp\<close>.\<close>

definition tmp_store :: "string \<Rightarrow> editor \<Rightarrow> fault + editor" where
  "tmp_store h s =
     (if length h < length (tmp s)
      then Inr (s\<lparr>tmp := h @ [CHR 0x00] @ drop (length h + 1) (tmp s)\<rparr>)
      else Inl OutOfBounds)"

text \<open>
  \<open>cmdtab_compl(tmp)\<close> when the word is the first of the line (\<open>is_cmd\<close>),
  \<open>symtab_compl(tmp)\<close> otherwise: the number of matches, with the hint left in \<open>tmp\<close>.
\<close>

definition complete :: "env \<Rightarrow> kstate \<Rightarrow> bool \<Rightarrow> editor \<Rightarrow> fault + (int \<times> editor)" where
  "complete E K is_cmd s =
     then_do (arr_strlen (tmp s) 0) (\<lambda>n.
       if is_cmd then
         then_do (cmdtab_compl K (take (nat n) (tmp s))) (\<lambda>(found, hint, printed).
           case hint of
             None \<Rightarrow> Inr (found, print printed s)
           | Some h \<Rightarrow> then_do (tmp_store h s) (\<lambda>s1. Inr (found, print printed s1)))
       else
         (case symtab_compl E (take (nat n) (tmp s)) of
            (found, h, printed) \<Rightarrow>
              then_do (tmp_store h s) (\<lambda>s1. Inr (found, print printed s1))))"

lemma shift_right_curlen:
  "shift_right i pos s = Inr s' \<Longrightarrow> curlen s' = curlen s"
proof (induction i pos s rule: shift_right.induct)
  case (1 i pos s)
  show ?case
  proof (cases "pos < i")
    case True
    with "1.prems" obtain c s1 where
      "cur_read s (i - 1) = Inr c" and w: "cur_write i c s = Inr s1"
      and r: "shift_right (i - 1) pos s1 = Inr s'"
      by (subst (asm) shift_right.simps) (auto simp add: then_do_eq_Inr)
    from "1.IH" [OF True this(1) w r] w show ?thesis
      by (auto simp add: cur_write_def then_do_eq_Inr)
  next
    case False
    with "1.prems" show ?thesis
      by (subst (asm) shift_right.simps) simp
  qed
qed

lemma insert_char_curlen:
  "insert_char ch pos s = Inr s' \<Longrightarrow> curlen s' = curlen s"
  by (auto simp add: insert_char_def cur_write_def then_do_eq_Inr dest!: shift_right_curlen)

text \<open>
  \<open>for (i = 0; tmp[i] && curlen < MAX_CMDLINE; i++, curlen++)
  insert_char(current, tmp[i], i + position);\<close>
\<close>

function insert_hint :: "limits \<Rightarrow> int \<Rightarrow> editor \<Rightarrow> fault + editor" where
  "insert_hint L i s =
     then_do (tmp_read s i) (\<lambda>c.
       if c \<noteq> CHR 0x00 \<and> curlen s < int (MAX_CMDLINE L) then
         then_do (insert_char c (i + position s) s)
           (\<lambda>s1. insert_hint L (i + 1) (s1\<lparr>curlen := curlen s1 + 1\<rparr>))
       else Inr s)"
  by pat_completeness auto
termination
  by (relation "measure (\<lambda>(L, i, s). nat (int (MAX_CMDLINE L) - curlen s))")
    (auto dest!: insert_char_curlen)

declare insert_hint.simps [simp del]

text \<open>
  The first part of the tabulator's branch: it moves the caret to the end of the word,
  copies the word to \<open>tmp\<close> and answers whether \<open>i == 0\<close> holds, that is whether the
  word is taken for the first of the line. When the bytes left in \<open>tmp\<close> begin with
  \<open>*\<close> or \<open>&\<close>, the loop that skips that byte overwrites \<open>i\<close>. The length handed to
  \<open>strncpy\<close> is unsigned: a negative \<open>position - i + 1\<close> is a length larger than
  both arrays, modelled by one byte more than \<open>tmp\<close> holds.
\<close>

definition rl_tab_word :: "editor \<Rightarrow> fault + (bool \<times> editor)" where
  "rl_tab_word s =
     then_do (word_end s) (\<lambda>s1.
     then_do (word_start s1 (position s1 - 1)) (\<lambda>i0.
     then_do (tmp_read s1 0) (\<lambda>t0.
     then_do (if t0 = CHR ''*'' \<or> t0 = CHR ''&'' then tmp_shift 1 s1 else Inr (s1, i0))
       (\<lambda>(s2, i1).
          then_do
            (strncpy_tmp (i1 + 1)
               (if position s2 - (i1 + 1) + 1 < 0 then length (tmp s2) + 1
                else nat (position s2 - (i1 + 1) + 1))
               0 s2)
            (\<lambda>s3. Inr (i1 + 1 = 0, s3))))))"

text \<open>
  The last part, after a completion that found something: the hint in \<open>tmp\<close> is
  inserted while the line has room, and the caret advances by the length of the hint.
\<close>

definition rl_tab_hint :: "limits \<Rightarrow> string \<Rightarrow> int \<Rightarrow> editor \<Rightarrow> fault + editor" where
  "rl_tab_hint L prompt found s =
     then_do (insert_hint L 0 s) (\<lambda>s1.
     then_do (arr_strlen (tmp s1) 0) (\<lambda>n.
       if n \<noteq> 0 \<or> found = 1 then
         then_do (echo (position s1) (curlen s1) s1) (\<lambda>s2.
         then_do
           (if found = 1 \<and> position s2 + n = curlen s2 \<and> curlen s2 < int (MAX_CMDLINE L)
            then
              then_do (cur_write (position s2 + n) (CHR '' '') s2) (\<lambda>s3.
                Inr (putchar (CHR '' '')
                       (s3\<lparr>curlen := curlen s3 + 1, position := position s3 + n + 1\<rparr>)))
            else Inr (s2\<lparr>position := position s2 + n\<rparr>))
           (\<lambda>s4. Inr (rdln_print_c (CHR 0x08) (curlen s4 - position s4) s4)))
       else
         then_do (echo 0 (curlen s1) (print (prompt @ ''> '') s1)) (\<lambda>s2.
           Inr (rdln_print_c (CHR 0x08) (curlen s2 - (position s2 + n))
                  (s2\<lparr>position := position s2 + n\<rparr>)))))"

definition rl_tab :: "limits \<Rightarrow> env \<Rightarrow> kstate \<Rightarrow> string \<Rightarrow> editor \<Rightarrow> fault + editor" where
  "rl_tab L E K prompt s =
     then_do (rl_tab_word s) (\<lambda>(is_cmd, s1).
     then_do (complete E K is_cmd s1) (\<lambda>(found, s2).
       if found = 0 then Inr s2 else rl_tab_hint L prompt found s2))"

subsection \<open>clever_readline\<close>

text \<open>
  The loop of \<open>clever_readline\<close> over the bytes \<open>_getc\<close> delivers; it ends at a line
  feed, with the bytes not read yet. When the bytes run out, \<open>_getc\<close> blocks.
\<close>

fun readline_loop ::
  "limits \<Rightarrow> env \<Rightarrow> kstate \<Rightarrow> string \<Rightarrow> char list \<Rightarrow> editor \<Rightarrow> fault + (editor \<times> char list)" where
  "readline_loop L E K prompt [] s = Inl InputExhausted"
| "readline_loop L E K prompt (c # input) s =
     (if c = newline then Inr (putchar c s, input)
      else if c = CHR 0x08 then
        then_do (rl_backspace s) (\<lambda>s1. readline_loop L E K prompt input s1)
      else if c = CHR 0x09 then
        then_do (rl_tab L E K prompt s) (\<lambda>s1. readline_loop L E K prompt input s1)
      else if c = CHR 0x1B then
        (case input of
           md # c1 # input1 \<Rightarrow>
             if md \<noteq> CHR 0x5B \<and> md \<noteq> CHR 0x4F then readline_loop L E K prompt input1 s
             else if c1 = CHR 0x33 then
               (case input1 of
                  [] \<Rightarrow> Inl InputExhausted
                | c2 # input2 \<Rightarrow>
                    if c2 = CHR 0x7E
                    then then_do (rl_delete s) (\<lambda>s1. readline_loop L E K prompt input2 s1)
                    else readline_loop L E K prompt input2 s)
             else if c1 = CHR 0x48 then readline_loop L E K prompt input1 (rl_home s)
             else if c1 = CHR 0x46 then
               then_do (rl_end s) (\<lambda>s1. readline_loop L E K prompt input1 s1)
             else if c1 = CHR 0x44 then readline_loop L E K prompt input1 (rl_left s)
             else if c1 = CHR 0x43 then
               then_do (rl_right s) (\<lambda>s1. readline_loop L E K prompt input1 s1)
             else if c1 = CHR 0x41 \<or> c1 = CHR 0x42 then
               then_do (rl_history L (c1 = CHR 0x41) s)
                 (\<lambda>s1. readline_loop L E K prompt input1 s1)
             else readline_loop L E K prompt input1 s
         | _ \<Rightarrow> Inl InputExhausted)
      else then_do (rl_insert L c s) (\<lambda>s1. readline_loop L E K prompt input s1))"

declare readline_loop.simps [simp del]

text \<open>
  \<open>clever_readline prompt input\<close> answers the pointer it returns (an offset into
  \<open>history\<close>), the variables at the return and the bytes not read yet. At the entry
  \<open>histposition\<close> is the index of a row.
\<close>

definition clever_readline ::
  "limits \<Rightarrow> env \<Rightarrow> kstate \<Rightarrow> string \<Rightarrow> char list \<Rightarrow> editor
     \<Rightarrow> fault + (int \<times> editor \<times> char list)" where
  "clever_readline L E K prompt input s =
     then_do
       (readline_loop L E K prompt input
          (print (prompt @ ''> '')
             (s\<lparr>curlen := 0, position := 0,
                current := histposition s * int (MAX_CMDLINE L)\<rparr>)))
       (\<lambda>(s1, rest).
          then_do
            (cur_write (curlen s1) (CHR 0x00)
               (if curlen s1 \<noteq> 0
                then s1\<lparr>histposition := (histposition s1 + 1) mod int (KCONSOLE_HISTORY L)\<rparr>
                else s1))
            (\<lambda>s2. Inr (current s2, s2, rest)))"

text \<open>The variables before the first call: every byte of the two arrays is 0.\<close>

definition kconsole_init :: "limits \<Rightarrow> editor" where
  "kconsole_init L =
     \<lparr>history = replicate (KCONSOLE_HISTORY L * MAX_CMDLINE L) (CHR 0x00),
      histposition = 0,
      tmp = replicate (MAX_CMDLINE L + 1) (CHR 0x00),
      current = 0, curlen = 0, position = 0, terminal = []\<rparr>"

subsection \<open>Lines, sessions and the history ring, as the specification describes them\<close>

text \<open>
  The string a caller finds at the pointer \<open>p\<close> into \<open>history\<close>, and one call of
  \<open>clever_readline\<close> after the other, each with the bytes its session receives: the lines
  returned, in order, and the variables after the last call.
\<close>

definition string_at :: "editor \<Rightarrow> int \<Rightarrow> string" where
  "string_at s p = takeWhile (\<lambda>c. c \<noteq> CHR 0x00) (drop (nat p) (history s))"

fun read_lines ::
  "limits \<Rightarrow> env \<Rightarrow> kstate \<Rightarrow> string \<Rightarrow> char list list \<Rightarrow> editor \<Rightarrow> fault + (string list \<times> editor)" where
  "read_lines L E K prompt [] s = Inr ([], s)"
| "read_lines L E K prompt (input # inputs) s =
     then_do (clever_readline L E K prompt input s) (\<lambda>(p, s1, rest).
     then_do (read_lines L E K prompt inputs s1) (\<lambda>(ls, s2). Inr (string_at s1 p # ls, s2)))"

text \<open>
  The bytes a session receives. An ordinary byte is one the editor inserts and \<open>strlen\<close>
  counts (no line feed, backspace, tabulator, escape or NUL). \<open>submit l\<close> is the line
  \<open>l\<close> typed byte by byte and Enter, and \<open>previous k\<close> the bytes of \<open>k\<close> presses of
  the "previous" key (escape, bracket, A).
\<close>

definition plain_byte :: "char \<Rightarrow> bool" where
  "plain_byte c =
     (c \<noteq> newline \<and> c \<noteq> CHR 0x08 \<and> c \<noteq> CHR 0x09 \<and> c \<noteq> CHR 0x1B \<and> c \<noteq> CHR 0x00)"

definition submit :: "string \<Rightarrow> char list" where
  "submit l = l @ [newline]"

definition key_up :: "char list" where
  "key_up = [CHR 0x1B, CHR 0x5B, CHR 0x41]"

definition previous :: "nat \<Rightarrow> char list" where
  "previous k = concat (replicate k key_up)"

text \<open>
  The keys that edit the line without moving the history cursor, with the bytes the
  terminal sends for them: a byte to insert, backspace, delete (escape, bracket, 3, tilde),
  home (H), end (F), left (D) and right (C). \<open>edit_key\<close> asks of a byte to insert that it
  is an ordinary one, and \<open>session ks\<close> is what a session receives when the keys \<open>ks\<close>
  are pressed and then Enter.
\<close>

datatype key = Key_byte char | Key_backspace | Key_delete | Key_home | Key_end | Key_left | Key_right

fun key_bytes :: "key \<Rightarrow> char list" where
  "key_bytes (Key_byte c) = [c]"
| "key_bytes Key_backspace = [CHR 0x08]"
| "key_bytes Key_delete = [CHR 0x1B, CHR 0x5B, CHR 0x33, CHR 0x7E]"
| "key_bytes Key_home = [CHR 0x1B, CHR 0x5B, CHR 0x48]"
| "key_bytes Key_end = [CHR 0x1B, CHR 0x5B, CHR 0x46]"
| "key_bytes Key_left = [CHR 0x1B, CHR 0x5B, CHR 0x44]"
| "key_bytes Key_right = [CHR 0x1B, CHR 0x5B, CHR 0x43]"

fun edit_key :: "key \<Rightarrow> bool" where
  "edit_key (Key_byte c) = plain_byte c"
| "edit_key k = True"

definition session :: "key list \<Rightarrow> char list" where
  "session ks = concat (map key_bytes ks) @ [newline]"

text \<open>
  The lines \<open>ls\<close> stored in the ring from its first row on: row \<open>j\<close> holds the
  \<open>j\<close>-th line, and the rows after the last line hold the empty string.
\<close>

definition slot_line :: "string list \<Rightarrow> nat \<Rightarrow> string" where
  "slot_line ls j = (if j < length ls then ls ! j else [])"

text \<open>What a test of the editor looks at: the lines returned and the variables at the end.\<close>

definition observed ::
  "fault + (string list \<times> editor) \<Rightarrow> fault + (string list \<times> int \<times> int \<times> int)" where
  "observed r =
     (case r of
        Inl f \<Rightarrow> Inl f
      | Inr (ls, s) \<Rightarrow> Inr (ls, histposition s, curlen s, position s))"

subsection \<open>What holds while a line is edited\<close>

text \<open>
  \<open>nul_free s n\<close>: the first \<open>n\<close> bytes of the current row lie in the array and none
  of them is NUL. \<open>editing s\<close>: the caret is inside the line, and the line, the first
  \<open>curlen\<close> bytes of the current row, is free of NUL. \<open>same_below s s'\<close>: from \<open>s\<close>
  to \<open>s'\<close> the history cursor and \<open>current\<close> have not moved, and no byte in front of
  the current row was written. \<open>row_holds L s r l\<close>: row \<open>r\<close> of the ring holds the
  string \<open>l\<close> with its terminator inside the row.
\<close>

definition nul_free :: "editor \<Rightarrow> int \<Rightarrow> bool" where
  "nul_free s n =
     (\<forall>i. 0 \<le> i \<and> i < n \<longrightarrow>
        current s + i < int (length (history s)) \<and> history s ! nat (current s + i) \<noteq> CHR 0x00)"

definition same_below :: "editor \<Rightarrow> editor \<Rightarrow> bool" where
  "same_below s s' =
     (current s' = current s \<and> histposition s' = histposition s
      \<and> length (history s') = length (history s)
      \<and> take (nat (current s)) (history s') = take (nat (current s)) (history s))"

definition editing :: "editor \<Rightarrow> bool" where
  "editing s = (0 \<le> current s \<and> 0 \<le> position s \<and> position s \<le> curlen s \<and> nul_free s (curlen s))"

definition row_holds :: "limits \<Rightarrow> editor \<Rightarrow> nat \<Rightarrow> string \<Rightarrow> bool" where
  "row_holds L s r l =
     (CHR 0x00 \<notin> set l \<and> length l < MAX_CMDLINE L
      \<and> take (length l + 1) (drop (r * MAX_CMDLINE L) (history s)) = l @ [CHR 0x00])"

subsection \<open>A small console to run the functions on\<close>

definition ex_cmd :: "string \<Rightarrow> cmd_arg list \<Rightarrow> cmd_info" where
  "ex_cmd n args = \<lparr>name = n, description = [], func = 0, argc = length args, argv = args\<rparr>"

definition ex_arg :: "cmd_arg_type \<Rightarrow> addr \<Rightarrow> nat \<Rightarrow> cmd_arg" where
  "ex_arg t b n = \<lparr>arg_type = t, buffer = b, len = n, intval = 0, vartype = ARG_TYPE_INVALID\<rparr>"

text \<open>
  Descriptor 1 is "dump" and descriptor 2 "dumpall", both without arguments; descriptor 3
  is "call" with one integer argument, descriptor 4 "set" with a string and a variable
  argument; every other address holds a descriptor named "help". \<open>ex_console xs\<close> has
  the descriptors \<open>xs\<close> linked and no lock held.
\<close>

definition ex_console :: "addr list \<Rightarrow> kstate" where
  "ex_console xs =
     \<lparr>cmd_head = xs,
      cmds = (\<lambda>a. if a = 1 then ex_cmd ''dump'' []
                  else if a = 2 then ex_cmd ''dumpall'' []
                  else if a = 3 then ex_cmd ''call'' [ex_arg ARG_TYPE_INT 0 0]
                  else if a = 4 then
                    ex_cmd ''set'' [ex_arg ARG_TYPE_STRING 100 4, ex_arg ARG_TYPE_VAR 101 8]
                  else ex_cmd ''help'' []),
      cmd_lock = False, locks = {}, strbuf = (\<lambda>a. []), console = []\<rparr>"

text \<open>
  An environment: blank, tab, line feed and carriage return are whitespace, \<open>atoi\<close>
  reads the decimal digits a text starts with, the symbol table knows the one symbol
  "kinit" at address 4096 (return code 0) and answers \<open>ENOENT\<close> for every other name.
\<close>

definition ex_atoi :: "string \<Rightarrow> nat" where
  "ex_atoi s = foldl (\<lambda>n c. 10 * n + (of_char c - 48)) 0
     (takeWhile (\<lambda>c. 48 \<le> (of_char c :: nat) \<and> (of_char c :: nat) \<le> 57) s)"

definition ex_env :: env where
  "ex_env =
     \<lparr>isspace = (\<lambda>c. c = CHR '' '' \<or> c = CHR 0x09 \<or> c = CHR 0x0A \<or> c = CHR 0x0D),
      atoi = ex_atoi,
      symtab_addr_lookup = (\<lambda>n. if n = ''kinit'' then (0, 4096) else (- 1, 0)),
      symtab_print_search = (\<lambda>n. []),
      symtab_compl = (\<lambda>n. (0, n, [])),
      mem_word = (\<lambda>a. a + 1),
      ENOENT = - 1, EOVERFLOW = - 15, MAX_SYMBOL_NAME = 64\<rparr>"

text \<open>Small sizes for the line editor: lines of at most 4 bytes, a ring of 3 rows.\<close>

definition ex_limits :: limits where
  "ex_limits = \<lparr>MAX_CMDLINE = 4, KCONSOLE_HISTORY = 3\<rparr>"

subsection \<open>Facts about the string comparison\<close>

lemma strncmp_eq_0_iff: "strncmp a b n = 0 \<longleftrightarrow> take n a = take n b"
  by (induction a b n rule: strncmp.induct) auto

lemma strncmp_max_eq_0_iff:
  "strncmp a b (max (strlen b) (strlen a)) = 0 \<longleftrightarrow> a = b"
  by (simp add: strncmp_eq_0_iff strlen_def)

subsection \<open>Facts about cmd_register\<close>

lemma lock_pair:
  assumes "locks s = {}" and "hlp \<noteq> cmd"
  shows "(if hlp < cmd then then_do (spinlock_lock hlp s) (spinlock_lock cmd)
           else then_do (spinlock_lock cmd s) (spinlock_lock hlp))
         = Inr (s\<lparr>locks := {hlp, cmd}\<rparr>)"
  using assms by (auto simp: spinlock_lock_def insert_commute)

lemma unlock_pair:
  assumes "locks s = {}"
  shows "spinlock_unlock cmd (spinlock_unlock hlp (s\<lparr>locks := {hlp, cmd}\<rparr>)) = s"
  using assms by (simp add: spinlock_unlock_def)

lemma cmd_register_scan_unlocked:
  assumes "locks s = {}"
  shows "cmd_register_scan cmd xs s =
     Inr (if cmd \<in> set xs \<or> name (cmds s cmd) \<in> name ` cmds s ` set xs
          then (False, unlock_cmd_lock s) else (True, s))"
  using assms
proof (induction xs)
  case Nil
  then show ?case by simp
next
  case (Cons hlp rest)
  show ?case
  proof (cases "hlp = cmd")
    case True
    then show ?thesis by simp
  next
    case False
    with Cons show ?thesis
      by (auto simp add: lock_pair unlock_pair strncmp_max_eq_0_iff)
  qed
qed

lemma cmd_register_unlocked:
  assumes "unlocked s"
  shows "cmd_register cmd s =
     (if cmd \<in> set (cmd_head s) \<or> name (cmds s cmd) \<in> name ` cmds s ` set (cmd_head s)
      then Inr (0, s) else Inr (1, s\<lparr>cmd_head := cmd_head s @ [cmd]\<rparr>))"
proof -
  from assms have free: "\<not> cmd_lock s" "locks s = {}"
    by (simp_all add: unlocked_def)
  have inside: "locks (s\<lparr>cmd_lock := True\<rparr>) = {}"
    using free by simp
  have restored: "unlock_cmd_lock (s\<lparr>cmd_lock := True\<rparr>) = s"
    using free by (simp add: unlock_cmd_lock_def)
  show ?thesis
    using free
    by (simp add: cmd_register_def lock_cmd_lock_def cmd_register_scan_unlocked [OF inside]
        restored unlock_cmd_lock_def)
qed

subsection \<open>Facts about parse_argument\<close>

lemma parse_argument_loop_found:
  assumes "i \<le> length cmdline"
  shows "parse_argument_loop E cmdline (length cmdline) i start True =
           (True, start, length cmdline - length (dropWhile (\<lambda>c. \<not> isspace E c) (drop i cmdline)))"
  using assms
proof (induction "length cmdline - i" arbitrary: i)
  case 0
  then show ?case
    by (subst parse_argument_loop.simps) simp
next
  case (Suc k)
  then have lt: "i < length cmdline" by simp
  then have unfold: "drop i cmdline = cmdline ! i # drop (Suc i) cmdline"
    by (simp add: Cons_nth_drop_Suc)
  from Suc have "k = length cmdline - Suc i" by simp
  from Suc.hyps(1) [OF this] lt
  have IH: "parse_argument_loop E cmdline (length cmdline) (Suc i) start True =
      (True, start, length cmdline - length (dropWhile (\<lambda>c. \<not> isspace E c) (drop (Suc i) cmdline)))"
    by simp
  show ?case
    using lt by (subst parse_argument_loop.simps) (simp add: unfold IH)
qed

lemma parse_argument_loop_scan:
  assumes "i \<le> length cmdline"
  shows "parse_argument_loop E cmdline (length cmdline) i (start + i) False =
           (if after_spaces E (drop i cmdline) = [] then (False, start + length cmdline, length cmdline)
            else (True, start + (length cmdline - length (after_spaces E (drop i cmdline))),
                 length cmdline - length (after_token E (after_spaces E (drop i cmdline)))))"
  using assms
proof (induction "length cmdline - i" arbitrary: i)
  case 0
  then show ?case
    by (subst parse_argument_loop.simps) (simp add: after_spaces_def)
next
  case (Suc k)
  then have lt: "i < length cmdline" by simp
  then have unfold: "drop i cmdline = cmdline ! i # drop (Suc i) cmdline"
    by (simp add: Cons_nth_drop_Suc)
  from Suc have "k = length cmdline - Suc i" by simp
  from Suc.hyps(1) [OF this] lt
  have IH: "parse_argument_loop E cmdline (length cmdline) (Suc i) (Suc (start + i)) False =
      (if after_spaces E (drop (Suc i) cmdline) = [] then (False, start + length cmdline, length cmdline)
       else (True, start + (length cmdline - length (after_spaces E (drop (Suc i) cmdline))),
             length cmdline - length (after_token E (after_spaces E (drop (Suc i) cmdline)))))"
    by simp
  show ?case
  proof (cases "isspace E (cmdline ! i)")
    case True
    then have "after_spaces E (drop i cmdline) = after_spaces E (drop (Suc i) cmdline)"
      by (simp add: unfold after_spaces_def)
    then show ?thesis
      using lt True IH by (subst parse_argument_loop.simps) simp
  next
    case False
    then have here: "after_spaces E (drop i cmdline) = drop i cmdline"
      by (simp add: unfold after_spaces_def)
    have "after_token E (drop i cmdline) = after_token E (drop (Suc i) cmdline)"
      using False by (simp add: unfold after_token_def)
    moreover have "parse_argument_loop E cmdline (length cmdline) (Suc i) (start + i) True =
        (True, start + i, length cmdline - length (after_token E (drop (Suc i) cmdline)))"
      using lt by (simp add: parse_argument_loop_found after_token_def)
    ultimately show ?thesis
      using lt False by (subst parse_argument_loop.simps) (simp add: here)
  qed
qed

lemma parse_argument_eq:
  assumes "start \<le> length cmdline"
  shows "parse_argument E cmdline (length cmdline) start =
           (if after_spaces E (drop start cmdline) = [] then (False, length cmdline, length cmdline - 1)
            else (True, length cmdline - length (after_spaces E (drop start cmdline)),
                  length cmdline - length (after_token E (after_spaces E (drop start cmdline))) - 1))"
  using parse_argument_loop_scan [OF assms, of E 0]
  by (simp add: parse_argument_def)

subsection \<open>Facts about the lookup and the argument loop\<close>

lemma find_cmd_unlocked:
  assumes "locks s = {}"
  shows "find_cmd cmdline start end xs s =
     Inr (case find (\<lambda>h. strncmp (name (cmds s h)) (drop start cmdline)
                        (max (strlen (name (cmds s h))) (end - start + 1)) = 0) xs of
            None \<Rightarrow> (None, s)
          | Some h \<Rightarrow> (Some h, s\<lparr>locks := {h}\<rparr>))"
  using assms
proof (induction xs)
  case Nil
  then show ?case by simp
next
  case (Cons hlp rest)
  have "spinlock_unlock hlp (s\<lparr>locks := {hlp}\<rparr>) = s"
    using Cons.prems by (simp add: spinlock_unlock_def)
  with Cons show ?case
    by (simp add: spinlock_lock_def)
qed

lemma find_cmd_Some:
  assumes "find_cmd cmdline start end xs s = Inr (Some h, s1)"
  shows "h \<in> set xs \<and> cmds s1 = cmds s
     \<and> strncmp (name (cmds s h)) (drop start cmdline)
          (max (strlen (name (cmds s h))) (end - start + 1)) = 0"
  using assms
proof (induction xs arbitrary: s)
  case Nil
  then show ?case by simp
next
  case (Cons hlp rest)
  from Cons.prems have free: "hlp \<notin> locks s"
    by (auto simp: spinlock_lock_def split: if_splits)
  show ?case
  proof (cases "strncmp (name (cmds s hlp)) (drop start cmdline)
          (max (strlen (name (cmds s hlp))) (end - start + 1)) = 0")
    case True
    with Cons.prems free show ?thesis
      by (auto simp: spinlock_lock_def)
  next
    case False
    with Cons.prems free
    have "find_cmd cmdline start end rest (spinlock_unlock hlp (s\<lparr>locks := insert hlp (locks s)\<rparr>))
            = Inr (Some h, s1)"
      by (simp add: spinlock_lock_def)
    from Cons.IH [OF this] show ?thesis
      by (simp add: spinlock_unlock_def)
  qed
qed

lemma store_arg_locks [simp]:
  "locks (store_arg cmd i a w printed s) = locks s"
  "cmd_lock (store_arg cmd i a w printed s) = cmd_lock s"
  "cmd_head (store_arg cmd i a w printed s) = cmd_head s"
  by (simp_all add: store_arg_def)

lemma parse_args_locks:
  assumes "parse_args E cmdline cmdlen cmd n i error end s = Inr (r, s')"
  shows "cmd_lock s' = cmd_lock s \<and> locks s' = (if r = None then locks s - {cmd} else locks s)"
  using assms
proof (induction E cmdline cmdlen cmd n i error "end" s rule: parse_args.induct)
  case (1 E cmdline cmdlen cmd n i error "end" s)
  show ?case
  proof (cases "i < n")
    case False
    with "1.prems" show ?thesis
      by (subst (asm) parse_args.simps) auto
  next
    case True
    obtain found start end' where pa: "parse_argument E cmdline cmdlen (end + 1) = (found, start, end')"
      by (cases "parse_argument E cmdline cmdlen (end + 1)") auto
    show ?thesis
    proof (cases found)
      case False
      with True pa "1.prems" show ?thesis
        by (subst (asm) parse_args.simps) (auto simp: spinlock_unlock_def printf_def)
    next
      case found: True
      from "1.prems" True pa found
      obtain error' a w printed where
        conv: "convert_arg E (drop start cmdline) (end' - start + 1) (argv (cmds s cmd) ! i)
                 = Inr (error', a, w, printed)"
        and inb: "i < length (argv (cmds s cmd))"
        and rest: "parse_args E cmdline cmdlen cmd n (i + 1) error' end' (store_arg cmd i a w printed s)
                 = Inr (r, s')"
        by (subst (asm) parse_args.simps) (auto simp: then_do_eq_Inr split: if_splits)
      from "1.IH" [OF True pa [symmetric] refl _ inb conv refl refl refl rest] found
      show ?thesis by simp
    qed
  qed
qed

lemma unlocked_simps:
  "unlocked s \<Longrightarrow> \<not> cmd_lock s"
  "unlocked s \<Longrightarrow> locks s = {}"
  by (simp_all add: unlocked_def)

lemma parse_cmdline_unlocked_eq:
  assumes "unlocked s" and "parse_argument E cmdline cmdlen 0 = (True, start, end)"
  shows "parse_cmdline E cmdline cmdlen s =
     (case find (\<lambda>h. strncmp (name (cmds s h)) (drop start cmdline)
                        (max (strlen (name (cmds s h))) (end - start + 1)) = 0) (cmd_head s) of
        None \<Rightarrow> Inr (None, printf (''Unknown command.'' @ [newline]) s)
      | Some cmd \<Rightarrow>
          then_do (parse_args E cmdline cmdlen cmd (argc (cmds s cmd)) 0 0 end (s\<lparr>locks := {cmd}\<rparr>))
            (\<lambda>(r', s2). parse_cmdline_tail E cmdline cmdlen cmd r' s2))"
proof -
  let ?s0 = "s\<lparr>cmd_lock := True\<rparr>"
  have s0: "lock_cmd_lock s = Inr ?s0" "locks ?s0 = {}"
    using assms(1) by (simp_all add: lock_cmd_lock_def unlocked_def)
  have u0: "unlock_cmd_lock ?s0 = s"
    using assms(1) by (simp add: unlock_cmd_lock_def unlocked_def)
  have u1: "unlock_cmd_lock (?s0\<lparr>locks := {c}\<rparr>) = s\<lparr>locks := {c}\<rparr>" for c
    using assms(1) by (simp add: unlock_cmd_lock_def unlocked_def)
  show ?thesis
    using assms(2) s0(1)
    by (simp add: parse_cmdline_def find_cmd_unlocked [OF s0(2)] u0 u1 split: option.split)
qed

lemma parse_args_prefix:
  assumes "parse_args E cmdline cmdlen cmd n i error end s = Inr (Some x, s')"
    and "i \<le> m" and "m \<le> n"
  shows "\<exists>y sm. parse_args E cmdline cmdlen cmd m i error end s = Inr (Some y, sm)"
  using assms
proof (induction "m - i" arbitrary: i error "end" s)
  case 0
  then have "\<not> i < m" by simp
  then show ?case
    by (subst parse_args.simps) simp
next
  case (Suc k)
  then have lt: "i < m" and ltn: "i < n" by simp_all
  obtain found start end' where pa: "parse_argument E cmdline cmdlen (end + 1) = (found, start, end')"
    by (cases "parse_argument E cmdline cmdlen (end + 1)") auto
  from Suc.prems(1) ltn pa have found: found
    by (subst (asm) parse_args.simps) (auto split: if_splits)
  from Suc.prems(1) ltn pa found
  obtain error' a w printed where
    conv: "convert_arg E (drop start cmdline) (end' - start + 1) (argv (cmds s cmd) ! i)
             = Inr (error', a, w, printed)"
    and inb: "i < length (argv (cmds s cmd))"
    and rest: "parse_args E cmdline cmdlen cmd n (i + 1) error' end' (store_arg cmd i a w printed s)
             = Inr (Some x, s')"
    by (subst (asm) parse_args.simps) (auto simp: then_do_eq_Inr split: if_splits)
  have k: "k = m - (i + 1)"
    using Suc.hyps(2) by simp
  have le: "i + 1 \<le> m"
    using lt by simp
  from Suc.hyps(1) [OF k rest le Suc.prems(3)]
  obtain y sm where
    "parse_args E cmdline cmdlen cmd m (i + 1) error' end' (store_arg cmd i a w printed s)
       = Inr (Some y, sm)"
    by blast
  moreover have "parse_args E cmdline cmdlen cmd m i error end s
      = parse_args E cmdline cmdlen cmd m (i + 1) error' end' (store_arg cmd i a w printed s)"
    using lt pa found inb conv by (subst parse_args.simps) simp
  ultimately show ?case
    by simp
qed

lemma parse_args_split:
  assumes "parse_args E cmdline cmdlen cmd m i error end s = Inr (Some (error', end'), sm)"
    and "i \<le> m" and "m \<le> n"
  shows "parse_args E cmdline cmdlen cmd n i error end s
           = parse_args E cmdline cmdlen cmd n m error' end' sm"
  using assms
proof (induction "m - i" arbitrary: i error "end" s)
  case 0
  then have "i = m" by simp
  with "0.prems"(1) show ?case
    by (subst (asm) parse_args.simps) simp
next
  case (Suc k)
  then have lt: "i < m" and ltn: "i < n" by simp_all
  obtain found start e1 where pa: "parse_argument E cmdline cmdlen (end + 1) = (found, start, e1)"
    by (cases "parse_argument E cmdline cmdlen (end + 1)") auto
  from Suc.prems(1) lt pa have found: found
    by (subst (asm) parse_args.simps) (auto split: if_splits)
  from Suc.prems(1) lt pa found
  obtain err1 a w printed where
    conv: "convert_arg E (drop start cmdline) (e1 - start + 1) (argv (cmds s cmd) ! i)
             = Inr (err1, a, w, printed)"
    and inb: "i < length (argv (cmds s cmd))"
    and rest: "parse_args E cmdline cmdlen cmd m (i + 1) err1 e1 (store_arg cmd i a w printed s)
             = Inr (Some (error', end'), sm)"
    by (subst (asm) parse_args.simps) (auto simp: then_do_eq_Inr split: if_splits)
  have k: "k = m - (i + 1)"
    using Suc.hyps(2) by simp
  have le: "i + 1 \<le> m"
    using lt by simp
  have "parse_args E cmdline cmdlen cmd n i error end s
      = parse_args E cmdline cmdlen cmd n (i + 1) err1 e1 (store_arg cmd i a w printed s)"
    using ltn pa found inb conv by (subst parse_args.simps) simp
  also have "\<dots> = parse_args E cmdline cmdlen cmd n m error' end' sm"
    using k rest le Suc.prems(3) by (rule Suc.hyps(1))
  finally show ?case .
qed

lemma parse_cmdline_empty: "parse_cmdline E [] 0 s = Inr (None, s)"
  by (simp add: parse_cmdline_def parse_argument_def parse_argument_loop.simps)

lemma exit_line:
  "length cmdline = 4 \<and> strncmp cmdline ''exit'' 4 = 0 \<longleftrightarrow> cmdline = ''exit''"
  by (auto simp add: strncmp_eq_0_iff)

subsection \<open>Where the tokens of a command line are\<close>

lemma convert_arg_total:
  assumes "arg_ok a"
  shows "\<exists>err a' w p. convert_arg E text n a = Inr (err, a', w, p) \<and> arg_ok a'"
  using assms
  by (cases "arg_type a")
    (auto simp add: convert_arg_def arg_ok_def split: prod.splits)

lemma convert_arg_error_prints:
  assumes "convert_arg E text n a = Inr (err, a', w, p)" and "err \<noteq> 0"
  shows "p \<noteq> []"
  using assms
  by (cases "arg_type a")
    (auto simp add: convert_arg_def parse_int_arg_def Let_def split: prod.splits if_splits)

lemma list_all_update:
  assumes "list_all P xs" and "P a"
  shows "list_all P (xs[i := a])"
  using assms set_update_subset_insert [of xs i a]
  by (auto simp add: list_all_iff)

lemma after_spaces_drop:
  "\<exists>k. after_spaces E (drop i s) = drop k s \<and> i \<le> k"
proof -
  have "after_spaces E (drop i s) = drop (length (takeWhile (isspace E) (drop i s)) + i) s"
    by (simp add: after_spaces_def dropWhile_eq_drop)
  then show ?thesis by (metis le_add2)
qed

lemma after_token_drop:
  "\<exists>k. after_token E (drop i s) = drop k s \<and> i \<le> k"
proof -
  have "after_token E (drop i s) = drop (length (takeWhile (\<lambda>c. \<not> isspace E c) (drop i s)) + i) s"
    by (simp add: after_token_def dropWhile_eq_drop)
  then show ?thesis by (metis le_add2)
qed

lemma drop_length_drop:
  "drop (length s - length (drop k s)) s = drop k s"
  by (cases "k \<le> length s") simp_all

lemma after_spaces_suffix:
  "drop (length s - length (after_spaces E (drop i s))) s = after_spaces E (drop i s)"
proof -
  obtain k where eq: "after_spaces E (drop i s) = drop k s"
    using after_spaces_drop by blast
  show ?thesis unfolding eq by (rule drop_length_drop)
qed

lemma after_token_after_spaces_suffix:
  "drop (length s - length (after_token E (after_spaces E (drop i s)))) s
     = after_token E (after_spaces E (drop i s))"
proof -
  obtain k where eq1: "after_spaces E (drop i s) = drop k s"
    using after_spaces_drop by blast
  obtain j where eq2: "after_token E (drop k s) = drop j s"
    using after_token_drop by blast
  show ?thesis unfolding eq1 eq2 by (rule drop_length_drop)
qed

lemma after_token_shorter:
  assumes "after_spaces E s \<noteq> []"
  shows "length (after_token E (after_spaces E s)) < length (after_spaces E s)"
proof -
  obtain c r where cr: "after_spaces E s = c # r"
    using assms by (cases "after_spaces E s") auto
  then have "\<not> isspace E c"
    unfolding after_spaces_def by (metis hd_dropWhile list.sel(1) list.distinct(1))
  then have "length (after_token E (c # r)) \<le> length r"
    by (simp add: after_token_def length_dropWhile_le)
  then show ?thesis by (simp add: cr)
qed

lemma length_after_spaces_le: "length (after_spaces E (drop i s)) \<le> length s - i"
  by (metis after_spaces_def length_dropWhile_le length_drop)

lemma parse_argument_next:
  assumes "e + 1 \<le> length cmdline" and "after_spaces E (drop (e + 1) cmdline) \<noteq> []"
  shows "\<exists>start end'. parse_argument E cmdline (length cmdline) (e + 1) = (True, start, end')
     \<and> drop start cmdline = after_spaces E (drop (e + 1) cmdline)
     \<and> end' - start + 1 = length (takeWhile (\<lambda>c. \<not> isspace E c) (after_spaces E (drop (e + 1) cmdline)))
     \<and> end' + 1 \<le> length cmdline
     \<and> drop (end' + 1) cmdline = after_token E (after_spaces E (drop (e + 1) cmdline))"
proof -
  let ?r = "after_spaces E (drop (e + 1) cmdline)"
  let ?t = "after_token E ?r"
  let ?L = "length cmdline"
  have lt: "length ?t < length ?r"
    using assms(2) by (rule after_token_shorter)
  have le: "length ?r \<le> ?L"
    using length_after_spaces_le [of E "e + 1" cmdline] by simp
  have tok: "length (takeWhile (\<lambda>c. \<not> isspace E c) ?r) + length ?t = length ?r"
    unfolding after_token_def by (metis length_append takeWhile_dropWhile_id)
  have pa: "parse_argument E cmdline ?L (e + 1) = (True, ?L - length ?r, ?L - length ?t - 1)"
    using assms by (simp add: parse_argument_eq)
  have idx: "?L - length ?t - 1 + 1 = ?L - length ?t"
    using lt le by simp
  have "drop (?L - length ?r) cmdline = ?r"
    by (rule after_spaces_suffix)
  moreover have "drop (?L - length ?t - 1 + 1) cmdline = ?t"
    unfolding idx by (rule after_token_after_spaces_suffix)
  moreover have "?L - length ?t - 1 - (?L - length ?r) + 1 = length (takeWhile (\<lambda>c. \<not> isspace E c) ?r)"
    using lt le tok by simp
  moreover have "?L - length ?t - 1 + 1 \<le> ?L"
    using lt le by simp
  ultimately show ?thesis
    using pa by blast
qed

subsection \<open>The argument loop on a well-formed descriptor\<close>

lemma store_arg_simps [simp]:
  "argv (cmds (store_arg c i a w printed s) c) = (argv (cmds s c))[i := a]"
  "console (store_arg c i a w printed s) = console s @ printed"
  by (simp_all add: store_arg_def)

lemma token_tails_Nil: "after_spaces E s = [] \<Longrightarrow> token_tails E s = []"
  by (subst token_tails.simps) simp

lemma token_tails_Cons:
  "after_spaces E s \<noteq> [] \<Longrightarrow>
     token_tails E s = after_spaces E s # token_tails E (after_token E (after_spaces E s))"
  by (subst token_tails.simps) simp

lemma parse_args_too_few:
  assumes "e + 1 \<le> length cmdline"
    and "n \<le> length (argv (cmds s c))"
    and "list_all arg_ok (argv (cmds s c))"
    and "length (token_tails E (drop (e + 1) cmdline)) < n - i"
  shows "\<exists>s'. parse_args E cmdline (length cmdline) c n i err e s = Inr (None, s')
           \<and> console s' \<noteq> [] \<and> last (console s') = ''Too few arguments.'' @ [newline]"
  using assms
proof (induction "n - i" arbitrary: i err e s)
  case 0
  then show ?case by simp
next
  case (Suc k)
  then have lt: "i < n" by simp
  let ?r = "after_spaces E (drop (e + 1) cmdline)"
  show ?case
  proof (cases "?r = []")
    case True
    with Suc.prems(1) have "parse_argument E cmdline (length cmdline) (e + 1)
        = (False, length cmdline, length cmdline - 1)"
      by (simp add: parse_argument_eq)
    with lt show ?thesis
      by (subst parse_args.simps) (simp add: spinlock_unlock_def printf_def)
  next
    case False
    from parse_argument_next [OF Suc.prems(1) False]
    obtain start end' where
      pa: "parse_argument E cmdline (length cmdline) (e + 1) = (True, start, end')"
      and tok_text: "drop start cmdline = ?r"
      and e': "end' + 1 \<le> length cmdline"
      and rest: "drop (end' + 1) cmdline = after_token E ?r"
      by blast
    have inb: "i < length (argv (cmds s c))"
      using lt Suc.prems(2) by simp
    then have "arg_ok (argv (cmds s c) ! i)"
      using Suc.prems(3) by (simp add: list_all_length)
    from convert_arg_total [OF this, of E "drop start cmdline" "end' - start + 1"]
    obtain err' a' w p where
      conv: "convert_arg E (drop start cmdline) (end' - start + 1) (argv (cmds s c) ! i)
               = Inr (err', a', w, p)"
      and ok': "arg_ok a'"
      by blast
    let ?s = "store_arg c i a' w p s"
    have step: "parse_args E cmdline (length cmdline) c n i err e s
        = parse_args E cmdline (length cmdline) c n (i + 1) err' end' ?s"
      using lt pa inb conv by (subst parse_args.simps) simp
    have k: "k = n - (i + 1)"
      using Suc.hyps(2) by simp
    have n': "n \<le> length (argv (cmds ?s c))"
      using Suc.prems(2) by simp
    have all': "list_all arg_ok (argv (cmds ?s c))"
      using Suc.prems(3) ok' by (simp add: list_all_update)
    have "token_tails E (drop (e + 1) cmdline) = ?r # token_tails E (drop (end' + 1) cmdline)"
      unfolding rest using False by (rule token_tails_Cons)
    with Suc.prems(4) have "length (token_tails E (drop (end' + 1) cmdline)) < n - (i + 1)"
      by simp
    from Suc.hyps(1) [OF k e' n' all' this, of err'] show ?thesis
      unfolding step .
  qed
qed

lemma parse_args_enough:
  assumes "e + 1 \<le> length cmdline"
    and "n \<le> length (argv (cmds s c))"
    and "list_all arg_ok (argv (cmds s c))"
    and "n - i \<le> length (token_tails E (drop (e + 1) cmdline))"
    and "i \<le> n"
  shows "\<exists>err' e' s'. parse_args E cmdline (length cmdline) c n i err e s = Inr (Some (err', e'), s')
           \<and> e' + 1 \<le> length cmdline
           \<and> token_tails E (drop (e' + 1) cmdline) = drop (n - i) (token_tails E (drop (e + 1) cmdline))
           \<and> (i < n \<longrightarrow>
                 (\<exists>a w p. convert_arg E (token_tails E (drop (e + 1) cmdline) ! (n - i - 1))
                      (length (takeWhile (\<lambda>c. \<not> isspace E c)
                         (token_tails E (drop (e + 1) cmdline) ! (n - i - 1))))
                      (argv (cmds s c) ! (n - 1)) = Inr (err', a, w, p)
                    \<and> (\<exists>pre. console s' = pre @ p)))
           \<and> (i = n \<longrightarrow> err' = err \<and> s' = s)"
  using assms
proof (induction "n - i" arbitrary: i err e s)
  case 0
  then have "\<not> i < n" by simp
  with "0.prems"(1) show ?case
    by (subst parse_args.simps) simp
next
  case (Suc k)
  then have lt: "i < n" by simp
  let ?r = "after_spaces E (drop (e + 1) cmdline)"
  have ne: "?r \<noteq> []"
    using Suc.prems(4) lt token_tails_Nil [of E "drop (e + 1) cmdline"] by auto
  from parse_argument_next [OF Suc.prems(1) ne]
  obtain start end' where
    pa: "parse_argument E cmdline (length cmdline) (e + 1) = (True, start, end')"
    and tok_text: "drop start cmdline = ?r"
    and tlen: "end' - start + 1 = length (takeWhile (\<lambda>c. \<not> isspace E c) ?r)"
    and e': "end' + 1 \<le> length cmdline"
    and rest: "drop (end' + 1) cmdline = after_token E ?r"
    by blast
  have tails0: "token_tails E (drop (e + 1) cmdline) = ?r # token_tails E (drop (end' + 1) cmdline)"
    unfolding rest using ne by (rule token_tails_Cons)
  then have tails: "token_tails E (drop (Suc e) cmdline)
      = after_spaces E (drop (Suc e) cmdline) # token_tails E (drop (Suc end') cmdline)"
    by simp
  have inb: "i < length (argv (cmds s c))"
    using lt Suc.prems(2) by simp
  then have "arg_ok (argv (cmds s c) ! i)"
    using Suc.prems(3) by (simp add: list_all_length)
  from convert_arg_total [OF this, of E "drop start cmdline" "end' - start + 1"]
  obtain err' a' w p where
    conv: "convert_arg E (drop start cmdline) (end' - start + 1) (argv (cmds s c) ! i)
             = Inr (err', a', w, p)"
    and ok': "arg_ok a'"
    by blast
  let ?s = "store_arg c i a' w p s"
  have step: "parse_args E cmdline (length cmdline) c n i err e s
      = parse_args E cmdline (length cmdline) c n (i + 1) err' end' ?s"
    using lt pa inb conv by (subst parse_args.simps) simp
  have k: "k = n - (i + 1)"
    using Suc.hyps(2) by simp
  have n': "n \<le> length (argv (cmds ?s c))"
    using Suc.prems(2) by simp
  have all': "list_all arg_ok (argv (cmds ?s c))"
    using Suc.prems(3) ok' by (simp add: list_all_update)
  have enough: "n - (i + 1) \<le> length (token_tails E (drop (end' + 1) cmdline))"
    using Suc.prems(4) by (simp add: tails)
  have le: "i + 1 \<le> n"
    using lt by simp
  from Suc.hyps(1) [OF k e' n' all' enough le, of err']
  obtain err'' e'' s'' where
    run: "parse_args E cmdline (length cmdline) c n (i + 1) err' end' ?s = Inr (Some (err'', e''), s'')"
    and e'': "e'' + 1 \<le> length cmdline"
    and tails'': "token_tails E (drop (e'' + 1) cmdline)
                   = drop (n - (i + 1)) (token_tails E (drop (end' + 1) cmdline))"
    and err_more: "i + 1 < n \<longrightarrow>
                 (\<exists>a w p. convert_arg E (token_tails E (drop (end' + 1) cmdline) ! (n - (i + 1) - 1))
                      (length (takeWhile (\<lambda>c. \<not> isspace E c)
                         (token_tails E (drop (end' + 1) cmdline) ! (n - (i + 1) - 1))))
                      (argv (cmds ?s c) ! (n - 1)) = Inr (err'', a, w, p)
                    \<and> (\<exists>pre. console s'' = pre @ p))"
    and err_last: "i + 1 = n \<longrightarrow> err'' = err' \<and> s'' = ?s"
    by blast
  have drop_eq: "drop (n - i) (token_tails E (drop (e + 1) cmdline))
      = drop (n - (i + 1)) (token_tails E (drop (end' + 1) cmdline))"
  proof -
    have "n - i = Suc (n - Suc i)" using lt by simp
    then show ?thesis by (simp add: tails)
  qed
  have "\<exists>a w p. convert_arg E (token_tails E (drop (e + 1) cmdline) ! (n - i - 1))
                      (length (takeWhile (\<lambda>c. \<not> isspace E c)
                         (token_tails E (drop (e + 1) cmdline) ! (n - i - 1))))
                      (argv (cmds s c) ! (n - 1)) = Inr (err'', a, w, p)
                    \<and> (\<exists>pre. console s'' = pre @ p)"
  proof (cases "i + 1 < n")
    case True
    then have "n - i - 1 = Suc (n - (i + 1) - 1)" by simp
    moreover have "argv (cmds ?s c) ! (n - 1) = argv (cmds s c) ! (n - 1)"
      using True by simp
    ultimately show ?thesis
      using err_more True by (simp add: tails)
  next
    case False
    with lt have n_eq: "n = Suc i" by simp
    from n_eq err_last have "err'' = err'" and "console s'' = console s @ p" by simp_all
    with conv tok_text tlen show ?thesis
      unfolding n_eq by (simp add: tails)
  qed
  with run e'' tails'' drop_eq lt show ?case
    unfolding step by simp
qed

subsection \<open>The first token\<close>

lemma parse_argument_first:
  assumes "after_spaces E cmdline \<noteq> []"
  shows "\<exists>start end'. parse_argument E cmdline (length cmdline) 0 = (True, start, end')
     \<and> drop start cmdline = after_spaces E cmdline
     \<and> end' - start + 1 = length (takeWhile (\<lambda>c. \<not> isspace E c) (after_spaces E cmdline))
     \<and> end' + 1 \<le> length cmdline
     \<and> drop (end' + 1) cmdline = after_token E (after_spaces E cmdline)"
proof -
  let ?r = "after_spaces E cmdline"
  let ?t = "after_token E ?r"
  let ?L = "length cmdline"
  have lt: "length ?t < length ?r"
    using assms by (rule after_token_shorter)
  have le: "length ?r \<le> ?L"
    using length_after_spaces_le [of E 0 cmdline] by simp
  have tok: "length (takeWhile (\<lambda>c. \<not> isspace E c) ?r) + length ?t = length ?r"
    unfolding after_token_def by (metis length_append takeWhile_dropWhile_id)
  have pa: "parse_argument E cmdline ?L 0 = (True, ?L - length ?r, ?L - length ?t - 1)"
    using assms by (simp add: parse_argument_eq)
  have idx: "?L - length ?t - 1 + 1 = ?L - length ?t"
    using lt le by simp
  have "drop (?L - length ?r) cmdline = ?r"
    using after_spaces_suffix [of cmdline E 0] by simp
  moreover have "drop (?L - length ?t - 1 + 1) cmdline = ?t"
    unfolding idx using after_token_after_spaces_suffix [of cmdline E 0] by simp
  moreover have "?L - length ?t - 1 - (?L - length ?r) + 1 = length (takeWhile (\<lambda>c. \<not> isspace E c) ?r)"
    using lt le tok by simp
  moreover have "?L - length ?t - 1 + 1 \<le> ?L"
    using lt le by simp
  ultimately show ?thesis
    using pa by blast
qed

lemma parse_argument_found_iff:
  "fst (parse_argument E cmdline (length cmdline) 0) \<longleftrightarrow> after_spaces E cmdline \<noteq> []"
  by (simp add: parse_argument_eq)

lemma hd_tokens:
  "after_spaces E s \<noteq> [] \<Longrightarrow>
     hd (tokens E s) = takeWhile (\<lambda>c. \<not> isspace E c) (after_spaces E s)"
  by (simp add: tokens_def token_tails_Cons)

lemma wf_cmd_simps:
  "wf_cmd ci \<Longrightarrow> argc ci \<le> length (argv ci)"
  "wf_cmd ci \<Longrightarrow> list_all arg_ok (argv ci)"
  by (simp_all add: wf_cmd_def)

subsection \<open>Facts about the line editor: writes and reads in the current row\<close>

lemma same_below_refl [simp]: "same_below s s"
  by (simp add: same_below_def)

lemma same_below_trans: "same_below s s1 \<Longrightarrow> same_below s1 s2 \<Longrightarrow> same_below s s2"
  by (simp add: same_below_def)

lemma nul_free_cong:
  "current s' = current s \<Longrightarrow> history s' = history s \<Longrightarrow> nul_free s' n = nul_free s n"
  by (simp add: nul_free_def)

lemma same_below_cong:
  "current s' = current s \<Longrightarrow> histposition s' = histposition s \<Longrightarrow> history s' = history s
     \<Longrightarrow> same_below s s'"
  by (simp add: same_below_def)

lemma nul_free_mono: "nul_free s n \<Longrightarrow> m \<le> n \<Longrightarrow> nul_free s m"
  by (auto simp add: nul_free_def)

lemma cur_write_Inr:
  assumes "cur_write i c s = Inr s'" and "0 \<le> current s" and "0 \<le> i"
  shows "s' = s\<lparr>history := (history s)[nat (current s + i) := c]\<rparr>"
    and "current s + i < int (length (history s))"
  using assms by (auto simp add: cur_write_def arr_write_def split: if_splits)

lemma cur_write_same_below:
  assumes "cur_write i c s = Inr s'" and "0 \<le> current s" and "0 \<le> i"
  shows "same_below s s'"
proof -
  have "nat (current s) \<le> nat (current s + i)"
    using assms(2,3) by simp
  then show ?thesis
    unfolding cur_write_Inr(1) [OF assms] by (simp add: same_below_def)
qed

lemma cur_write_nul_free:
  assumes "cur_write i c s = Inr s'" and "0 \<le> current s" and "0 \<le> i"
    and "nul_free s n" and "c \<noteq> CHR 0x00"
  shows "nul_free s' n"
proof -
  note eq = cur_write_Inr(1) [OF assms(1-3)] and inb = cur_write_Inr(2) [OF assms(1-3)]
  have k: "nat (current s + i) < length (history s)"
    using inb assms(2,3) by simp
  show ?thesis
    using assms(4,5) unfolding eq by (simp add: nul_free_def nth_list_update [OF k])
qed

lemma cur_write_nul_free_next:
  assumes "cur_write n c s = Inr s'" and "0 \<le> current s" and "0 \<le> n"
    and "nul_free s n" and "c \<noteq> CHR 0x00"
  shows "nul_free s' (n + 1)"
proof -
  note eq = cur_write_Inr(1) [OF assms(1-3)] and inb = cur_write_Inr(2) [OF assms(1-3)]
  have k: "nat (current s + n) < length (history s)"
    using inb assms(2,3) by simp
  have "current s + i < int (length (history s))
          \<and> (history s)[nat (current s + n) := c] ! nat (current s + i) \<noteq> CHR 0x00"
    if i: "0 \<le> i \<and> i < n + 1" for i
  proof (cases "i = n")
    case True
    with inb assms(5) show ?thesis
      by (simp add: nth_list_update [OF k])
  next
    case False
    with i have "0 \<le> i \<and> i < n" by simp
    with assms(4) have "current s + i < int (length (history s))"
      "history s ! nat (current s + i) \<noteq> CHR 0x00"
      by (simp_all add: nul_free_def)
    with assms(5) show ?thesis
      by (simp add: nth_list_update [OF k])
  qed
  then show ?thesis
    unfolding eq by (simp add: nul_free_def)
qed

lemma cur_read_nul_free:
  assumes "cur_read s i = Inr c" and "nul_free s n" and "0 \<le> i" and "i < n"
  shows "c \<noteq> CHR 0x00"
  using assms by (auto simp add: cur_read_def arr_read_def nul_free_def split: if_splits)

lemma arr_strlen_Inr:
  assumes "arr_strlen h b = Inr n"
  shows "0 \<le> n" and "0 \<le> b"
    and "\<forall>i. 0 \<le> i \<and> i < n \<longrightarrow> b + i < int (length h) \<and> h ! nat (b + i) \<noteq> CHR 0x00"
    and "b + n < int (length h)" and "h ! nat (b + n) = CHR 0x00"
    and "takeWhile (\<lambda>c. c \<noteq> CHR 0x00) (drop (nat b) h) = take (nat n) (drop (nat b) h)"
proof -
  let ?xs = "drop (nat b) h"
  let ?t = "takeWhile (\<lambda>c. c \<noteq> CHR 0x00) ?xs"
  from assms have b: "0 \<le> b" and nul: "CHR 0x00 \<in> set ?xs" and n: "n = int (length ?t)"
    by (auto simp add: arr_strlen_def split: if_splits)
  show "0 \<le> n" using n by simp
  show "0 \<le> b" by (rule b)
  have take_t: "?t = take (length ?t) ?xs"
    by (rule takeWhile_eq_take)
  have "?t \<noteq> ?xs"
    using nul by (auto simp add: takeWhile_eq_all_conv)
  with take_t have "length ?t \<noteq> length ?xs"
    by auto
  moreover have "length ?t \<le> length ?xs"
    by (rule length_takeWhile_le)
  ultimately have lt: "length ?t < length ?xs"
    by simp
  then have inb: "nat b + length ?t < length h"
    by simp
  show "b + n < int (length h)"
    using inb b n by arith
  have "?xs ! length ?t = CHR 0x00"
    using nth_length_takeWhile [OF lt] by simp
  moreover have "?xs ! length ?t = h ! (nat b + length ?t)"
    using inb by simp
  moreover have "nat (b + n) = nat b + length ?t"
    using b n by arith
  ultimately show "h ! nat (b + n) = CHR 0x00"
    by simp
  show "\<forall>i. 0 \<le> i \<and> i < n \<longrightarrow> b + i < int (length h) \<and> h ! nat (b + i) \<noteq> CHR 0x00"
  proof (intro allI impI)
    fix i :: int
    assume i: "0 \<le> i \<and> i < n"
    then have k: "nat i < length ?t"
      using n by arith
    then have "?t ! nat i \<in> set ?t"
      by simp
    then have "?t ! nat i \<noteq> CHR 0x00"
      by (auto dest: set_takeWhileD)
    moreover have "?t ! nat i = ?xs ! nat i"
      using k by (rule takeWhile_nth)
    moreover have "?xs ! nat i = h ! (nat b + nat i)"
      using k inb by simp
    moreover have "nat (b + i) = nat b + nat i"
      using b i by arith
    ultimately have "h ! nat (b + i) \<noteq> CHR 0x00"
      by simp
    moreover have "b + i < int (length h)"
      using k inb b i by arith
    ultimately show "b + i < int (length h) \<and> h ! nat (b + i) \<noteq> CHR 0x00"
      by simp
  qed
  from take_t show "?t = take (nat n) ?xs"
    using n by simp
qed

lemma cur_strlen_nul_free:
  assumes "cur_strlen s = Inr n"
  shows "nul_free s n" and "0 \<le> n"
  using arr_strlen_Inr(3) [OF assms [unfolded cur_strlen_def]]
    arr_strlen_Inr(1) [OF assms [unfolded cur_strlen_def]]
  by (simp_all add: nul_free_def)

lemma cur_strlen_least:
  assumes "cur_strlen s = Inr n" and "nul_free s m"
  shows "m \<le> n"
proof (rule ccontr)
  assume "\<not> m \<le> n"
  then have "n < m" by simp
  moreover have "0 \<le> n"
    using assms(1) by (rule cur_strlen_nul_free)
  ultimately have "history s ! nat (current s + n) \<noteq> CHR 0x00"
    using assms(2) by (simp add: nul_free_def)
  with arr_strlen_Inr(5) [OF assms(1) [unfolded cur_strlen_def]] show False
    by simp
qed

subsection \<open>Facts about the line editor: the loops that move bytes\<close>

lemma cur_write_fields:
  assumes "cur_write i c s = Inr s'"
  shows "curlen s' = curlen s" "position s' = position s" "terminal s' = terminal s"
    "current s' = current s" "histposition s' = histposition s" "tmp s' = tmp s"
  using assms by (auto simp add: cur_write_def then_do_eq_Inr)

lemma echo_Inr:
  "echo i to s = Inr s' \<Longrightarrow> s' = s\<lparr>terminal := terminal s'\<rparr>"
proof (induction i to s rule: echo.induct)
  case (1 i to s)
  show ?case
  proof (cases "i < to")
    case True
    with "1.prems" obtain c where
      r: "cur_read s i = Inr c" and rest: "echo (i + 1) to (putchar c s) = Inr s'"
      by (subst (asm) echo.simps) (auto simp add: then_do_eq_Inr)
    from "1.IH" [OF True r rest] have "s' = (putchar c s)\<lparr>terminal := terminal s'\<rparr>" .
    then show ?thesis
      by (simp add: putchar_def)
  next
    case False
    with "1.prems" show ?thesis
      by (subst (asm) echo.simps) simp
  qed
qed

lemma shift_left_Inr:
  assumes "shift_left i to s = Inr s'" and "nul_free s n" and "to \<le> n" and "1 \<le> i"
    and "0 \<le> current s"
  shows "nul_free s' n \<and> same_below s s' \<and> curlen s' = curlen s \<and> position s' = position s
     \<and> terminal s' = terminal s"
  using assms
proof (induction i to s rule: shift_left.induct)
  case (1 i to s)
  show ?case
  proof (cases "i < to")
    case True
    with "1.prems"(1) obtain c s1 where
      r: "cur_read s i = Inr c" and w: "cur_write (i - 1) c s = Inr s1"
      and rest: "shift_left (i + 1) to s1 = Inr s'"
      by (subst (asm) shift_left.simps) (auto simp add: then_do_eq_Inr)
    have c: "c \<noteq> CHR 0x00"
      using r "1.prems"(2) _ _
    proof (rule cur_read_nul_free)
      show "0 \<le> i" using "1.prems"(4) by simp
      show "i < n" using True "1.prems"(3) by simp
    qed
    have i1: "0 \<le> i - 1"
      using "1.prems"(4) by simp
    note f = cur_write_fields [OF w]
    have n1: "nul_free s1 n"
      using w "1.prems"(5) i1 "1.prems"(2) c by (rule cur_write_nul_free)
    have b1: "same_below s s1"
      using w "1.prems"(5) i1 by (rule cur_write_same_below)
    have "nul_free s' n \<and> same_below s1 s' \<and> curlen s' = curlen s1 \<and> position s' = position s1
       \<and> terminal s' = terminal s1"
      using True r w rest n1 "1.prems"(3) _ _
    proof (rule "1.IH")
      show "1 \<le> i + 1" using "1.prems"(4) by simp
      show "0 \<le> current s1" using "1.prems"(5) f by simp
    qed
    with b1 f show ?thesis
      by (auto intro: same_below_trans)
  next
    case False
    with "1.prems" show ?thesis
      by (subst (asm) shift_left.simps) simp
  qed
qed

lemma shift_left_echo_Inr:
  assumes "shift_left_echo i to s = Inr s'" and "nul_free s n" and "to \<le> n" and "1 \<le> i"
    and "0 \<le> current s"
  shows "nul_free s' n \<and> same_below s s' \<and> curlen s' = curlen s \<and> position s' = position s"
  using assms
proof (induction i to s rule: shift_left_echo.induct)
  case (1 i to s)
  show ?case
  proof (cases "i < to")
    case True
    with "1.prems"(1) obtain c s1 where
      r: "cur_read s i = Inr c" and w: "cur_write (i - 1) c (putchar c s) = Inr s1"
      and rest: "shift_left_echo (i + 1) to s1 = Inr s'"
      by (subst (asm) shift_left_echo.simps) (auto simp add: then_do_eq_Inr)
    have c: "c \<noteq> CHR 0x00"
      using r "1.prems"(2) _ _
    proof (rule cur_read_nul_free)
      show "0 \<le> i" using "1.prems"(4) by simp
      show "i < n" using True "1.prems"(3) by simp
    qed
    have i1: "0 \<le> i - 1"
      using "1.prems"(4) by simp
    let ?s0 = "putchar c s"
    have cur0: "0 \<le> current ?s0"
      using "1.prems"(5) by (simp add: putchar_def)
    have n0: "nul_free ?s0 n"
      using "1.prems"(2) by (simp add: nul_free_def putchar_def)
    have b0: "same_below s ?s0"
      by (simp add: same_below_def putchar_def)
    note f = cur_write_fields [OF w]
    have n1: "nul_free s1 n"
      using w cur0 i1 n0 c by (rule cur_write_nul_free)
    have b1: "same_below ?s0 s1"
      using w cur0 i1 by (rule cur_write_same_below)
    have "nul_free s' n \<and> same_below s1 s' \<and> curlen s' = curlen s1 \<and> position s' = position s1"
      using True r w rest n1 "1.prems"(3) _ _
    proof (rule "1.IH")
      show "1 \<le> i + 1" using "1.prems"(4) by simp
      show "0 \<le> current s1" using cur0 f by simp
    qed
    with b0 b1 f show ?thesis
      by (auto intro: same_below_trans simp add: putchar_def)
  next
    case False
    with "1.prems" show ?thesis
      by (subst (asm) shift_left_echo.simps) simp
  qed
qed

lemma shift_right_Inr:
  assumes "shift_right i pos s = Inr s'" and "nul_free s m" and "i < m" and "0 \<le> pos"
    and "0 \<le> current s"
  shows "nul_free s' m \<and> same_below s s' \<and> curlen s' = curlen s \<and> position s' = position s
     \<and> terminal s' = terminal s"
  using assms
proof (induction i pos s rule: shift_right.induct)
  case (1 i pos s)
  show ?case
  proof (cases "pos < i")
    case True
    with "1.prems"(1) obtain c s1 where
      r: "cur_read s (i - 1) = Inr c" and w: "cur_write i c s = Inr s1"
      and rest: "shift_right (i - 1) pos s1 = Inr s'"
      by (subst (asm) shift_right.simps) (auto simp add: then_do_eq_Inr)
    have c: "c \<noteq> CHR 0x00"
      using r "1.prems"(2) _ _
    proof (rule cur_read_nul_free)
      show "0 \<le> i - 1" using True "1.prems"(4) by simp
      show "i - 1 < m" using "1.prems"(3) by simp
    qed
    have i0: "0 \<le> i"
      using True "1.prems"(4) by simp
    note f = cur_write_fields [OF w]
    have n1: "nul_free s1 m"
      using w "1.prems"(5) i0 "1.prems"(2) c by (rule cur_write_nul_free)
    have b1: "same_below s s1"
      using w "1.prems"(5) i0 by (rule cur_write_same_below)
    have "nul_free s' m \<and> same_below s1 s' \<and> curlen s' = curlen s1 \<and> position s' = position s1
       \<and> terminal s' = terminal s1"
      using True r w rest n1 _ "1.prems"(4) _
    proof (rule "1.IH")
      show "i - 1 < m" using "1.prems"(3) by simp
      show "0 \<le> current s1" using "1.prems"(5) f by simp
    qed
    with b1 f show ?thesis
      by (auto intro: same_below_trans)
  next
    case False
    with "1.prems" show ?thesis
      by (subst (asm) shift_right.simps) simp
  qed
qed

lemma insert_char_Inr:
  assumes run: "insert_char c pos s = Inr s'" and free: "nul_free s n" and pos: "0 \<le> pos" "pos \<le> n"
    and cur: "0 \<le> current s" and c: "c \<noteq> CHR 0x00"
  shows "nul_free s' (n + 1) \<and> same_below s s' \<and> curlen s' = curlen s \<and> position s' = position s
     \<and> terminal s' = terminal s"
proof -
  from run obtain len s1 where
    len: "cur_strlen s = Inr len" and sh: "shift_right len pos s = Inr s1"
    and w: "cur_write pos c s1 = Inr s'"
    by (auto simp add: insert_char_def then_do_eq_Inr)
  note free_len = cur_strlen_nul_free(1) [OF len]
  have n_len: "n \<le> len"
    using len free by (rule cur_strlen_least)
  have mid: "nul_free s1 (len + 1) \<and> same_below s s1 \<and> curlen s1 = curlen s
     \<and> position s1 = position s \<and> terminal s1 = terminal s \<or> (pos = len \<and> s1 = s)"
  proof (cases "pos < len")
    case True
    with sh obtain c0 sa where
      r: "cur_read s (len - 1) = Inr c0" and wa: "cur_write len c0 s = Inr sa"
      and rest: "shift_right (len - 1) pos sa = Inr s1"
      by (subst (asm) shift_right.simps) (auto simp add: then_do_eq_Inr)
    have c0: "c0 \<noteq> CHR 0x00"
      using r free_len _ _
    proof (rule cur_read_nul_free)
      show "0 \<le> len - 1" using True pos by simp
      show "len - 1 < len" by simp
    qed
    have len0: "0 \<le> len"
      using True pos by simp
    note fa = cur_write_fields [OF wa]
    have na: "nul_free sa (len + 1)"
      using wa cur len0 free_len c0 by (rule cur_write_nul_free_next)
    have ba: "same_below s sa"
      using wa cur len0 by (rule cur_write_same_below)
    have "nul_free s1 (len + 1) \<and> same_below sa s1 \<and> curlen s1 = curlen sa
       \<and> position s1 = position sa \<and> terminal s1 = terminal sa"
      using rest na _ pos(1) _
    proof (rule shift_right_Inr)
      show "len - 1 < len + 1" by simp
      show "0 \<le> current sa" using cur fa by simp
    qed
    with ba fa show ?thesis
      by (auto intro: same_below_trans)
  next
    case False
    with pos n_len have "pos = len" by simp
    moreover from sh False have "s1 = s"
      by (subst (asm) shift_right.simps) simp
    ultimately show ?thesis by simp
  qed
  note f = cur_write_fields [OF w]
  from mid show ?thesis
  proof
    assume a: "nul_free s1 (len + 1) \<and> same_below s s1 \<and> curlen s1 = curlen s
       \<and> position s1 = position s \<and> terminal s1 = terminal s"
    then have cur1: "0 \<le> current s1"
      using cur by (simp add: same_below_def)
    have "nul_free s' (len + 1)"
      using w cur1 pos(1) _ c
    proof (rule cur_write_nul_free)
      show "nul_free s1 (len + 1)" using a by simp
    qed
    then have "nul_free s' (n + 1)"
      using n_len by (auto intro: nul_free_mono)
    moreover have "same_below s1 s'"
      using w cur1 pos(1) by (rule cur_write_same_below)
    ultimately show ?thesis
      using a f by (auto intro: same_below_trans)
  next
    assume a: "pos = len \<and> s1 = s"
    with pos n_len have eq: "n = len" "pos = n" by simp_all
    from w a have w': "cur_write n c s = Inr s'"
      using eq by simp
    have "nul_free s' (n + 1)"
      using w' cur _ free c
    proof (rule cur_write_nul_free_next)
      show "0 \<le> n" using pos eq by simp
    qed
    moreover have "same_below s s'"
      using w' cur
    proof (rule cur_write_same_below)
      show "0 \<le> n" using pos eq by simp
    qed
    ultimately show ?thesis
      using f a by simp
  qed
qed

subsection \<open>Facts about the line editor: the editing keys\<close>

lemma echo_fields:
  assumes "echo i to s = Inr s'"
  shows "history s' = history s" "current s' = current s" "curlen s' = curlen s"
    "position s' = position s" "histposition s' = histposition s"
  by (subst echo_Inr [OF assms], simp)+

lemma editingI:
  assumes "nul_free s0 (curlen s')" and "current s' = current s0" and "history s' = history s0"
    and "0 \<le> current s0" and "0 \<le> position s'" and "position s' \<le> curlen s'"
  shows "editing s'"
  using assms nul_free_cong [of s' s0 "curlen s'"] by (simp add: editing_def)

lemma same_below_step:
  assumes "same_below s s0" and "current s' = current s0" and "histposition s' = histposition s0"
    and "history s' = history s0"
  shows "same_below s s'"
  using assms by (simp add: same_below_def)

lemma rl_insert_editing:
  assumes run: "rl_insert L c s = Inr s'" and ed: "editing s" and c: "c \<noteq> CHR 0x00"
  shows "editing s' \<and> same_below s s'"
proof (cases "int (MAX_CMDLINE L) \<le> curlen s")
  case True
  with run ed show ?thesis
    by (simp add: rl_insert_def)
next
  case False
  with run obtain s1 s2 where
    ins: "insert_char c (position s) s = Inr s1"
    and ec: "echo (position s1) (curlen s1 + 1) (s1\<lparr>curlen := curlen s1 + 1\<rparr>) = Inr s2"
    and s': "s' = rdln_print_c (CHR 0x08) (curlen s2 - (position s2 + 1))
                    (s2\<lparr>position := position s2 + 1\<rparr>)"
    by (auto simp add: rl_insert_def then_do_eq_Inr)
  from ed have pre: "nul_free s (curlen s)" "0 \<le> position s" "position s \<le> curlen s"
    "0 \<le> current s"
    by (simp_all add: editing_def)
  from insert_char_Inr [OF ins pre c]
  have n1: "nul_free s1 (curlen s + 1)" and b1: "same_below s s1"
    and f1: "curlen s1 = curlen s" "position s1 = position s"
    by simp_all
  note f2 = echo_fields [OF ec]
  have "editing s'"
  proof (rule editingI [of s1])
    show "nul_free s1 (curlen s')" using n1 f1 f2 by (simp add: s' rdln_print_c_def)
    show "current s' = current s1" using f2 by (simp add: s' rdln_print_c_def)
    show "history s' = history s1" using f2 by (simp add: s' rdln_print_c_def)
    show "0 \<le> current s1" using b1 pre by (simp add: same_below_def)
    show "0 \<le> position s'" using pre f1 f2 by (simp add: s' rdln_print_c_def)
    show "position s' \<le> curlen s'" using pre f1 f2 by (simp add: s' rdln_print_c_def)
  qed
  moreover have "same_below s s'"
    using b1 by (rule same_below_step) (simp_all add: s' rdln_print_c_def f2)
  ultimately show ?thesis ..
qed

lemma rl_backspace_editing:
  assumes run: "rl_backspace s = Inr s'" and ed: "editing s"
  shows "editing s' \<and> same_below s s'"
proof (cases "position s = 0")
  case True
  with run ed show ?thesis
    by (simp add: rl_backspace_def)
next
  case False
  from ed have pre: "nul_free s (curlen s)" "0 \<le> position s" "position s \<le> curlen s"
    "0 \<le> current s"
    by (simp_all add: editing_def)
  from run False obtain s1 s2 where
    sh: "shift_left (position s) (curlen s) s = Inr s1"
    and ec: "echo (position s1 - 1) (curlen s1 - 1)
               (putchar (CHR 0x08) (s1\<lparr>curlen := curlen s1 - 1, position := position s1 - 1\<rparr>))
             = Inr s2"
    and s': "s' = rdln_print_c (CHR 0x08) (curlen s2 - position s2 + 1) (putchar (CHR '' '') s2)"
    by (auto simp add: rl_backspace_def then_do_eq_Inr)
  have "1 \<le> position s"
    using False pre by simp
  from shift_left_Inr [OF sh pre(1) order_refl this pre(4)]
  have n1: "nul_free s1 (curlen s)" and b1: "same_below s s1"
    and f1: "curlen s1 = curlen s" "position s1 = position s"
    by simp_all
  note f2 = echo_fields [OF ec]
  have "editing s'"
  proof (rule editingI [of s1])
    have "curlen s' = curlen s - 1" using f1 f2 by (simp add: s' rdln_print_c_def putchar_def)
    then show "nul_free s1 (curlen s')" using n1 by (auto intro: nul_free_mono)
    show "current s' = current s1" using f2 by (simp add: s' rdln_print_c_def putchar_def)
    show "history s' = history s1" using f2 by (simp add: s' rdln_print_c_def putchar_def)
    show "0 \<le> current s1" using b1 pre by (simp add: same_below_def)
    show "0 \<le> position s'" using pre False f1 f2 by (simp add: s' rdln_print_c_def putchar_def)
    show "position s' \<le> curlen s'" using pre f1 f2 by (simp add: s' rdln_print_c_def putchar_def)
  qed
  moreover have "same_below s s'"
    using b1 by (rule same_below_step) (simp_all add: s' rdln_print_c_def putchar_def f2)
  ultimately show ?thesis ..
qed

lemma rl_delete_editing:
  assumes run: "rl_delete s = Inr s'" and ed: "editing s"
  shows "editing s' \<and> same_below s s'"
proof (cases "position s = curlen s")
  case True
  with run ed show ?thesis
    by (simp add: rl_delete_def)
next
  case False
  from ed have pre: "nul_free s (curlen s)" "0 \<le> position s" "position s \<le> curlen s"
    "0 \<le> current s"
    by (simp_all add: editing_def)
  from run False obtain s1 where
    sh: "shift_left_echo (position s + 1) (curlen s) s = Inr s1"
    and s': "s' = (rdln_print_c (CHR 0x08) (curlen s1 - position s1) (putchar (CHR '' '') s1))
                    \<lparr>curlen := curlen s1 - 1\<rparr>"
    by (auto simp add: rl_delete_def then_do_eq_Inr)
  have "1 \<le> position s + 1"
    using pre by simp
  from shift_left_echo_Inr [OF sh pre(1) order_refl this pre(4)]
  have n1: "nul_free s1 (curlen s)" and b1: "same_below s s1"
    and f1: "curlen s1 = curlen s" "position s1 = position s"
    by simp_all
  have "editing s'"
  proof (rule editingI [of s1])
    have "curlen s' = curlen s - 1" using f1 by (simp add: s' rdln_print_c_def putchar_def)
    then show "nul_free s1 (curlen s')" using n1 by (auto intro: nul_free_mono)
    show "current s' = current s1" by (simp add: s' rdln_print_c_def putchar_def)
    show "history s' = history s1" by (simp add: s' rdln_print_c_def putchar_def)
    show "0 \<le> current s1" using b1 pre by (simp add: same_below_def)
    show "0 \<le> position s'" using pre f1 by (simp add: s' rdln_print_c_def putchar_def)
    show "position s' \<le> curlen s'" using pre False f1 by (simp add: s' rdln_print_c_def putchar_def)
  qed
  moreover have "same_below s s'"
    using b1 by (rule same_below_step) (simp_all add: s' rdln_print_c_def putchar_def)
  ultimately show ?thesis ..
qed

lemma rl_home_editing:
  assumes "editing s"
  shows "editing (rl_home s) \<and> same_below s (rl_home s)"
  using assms by (simp add: editing_def rl_home_def rdln_print_c_def nul_free_def same_below_def)

lemma rl_left_editing:
  assumes "editing s"
  shows "editing (rl_left s) \<and> same_below s (rl_left s)"
  using assms by (simp add: editing_def rl_left_def putchar_def nul_free_def same_below_def)

lemma rl_end_editing:
  assumes run: "rl_end s = Inr s'" and ed: "editing s"
  shows "editing s' \<and> same_below s s'"
proof -
  from run obtain s1 where ec: "echo (position s) (curlen s) s = Inr s1"
    and s': "s' = s1\<lparr>position := curlen s1\<rparr>"
    by (auto simp add: rl_end_def then_do_eq_Inr)
  note f = echo_fields [OF ec]
  from ed f show ?thesis
    by (simp add: s' editing_def nul_free_def same_below_def)
qed

lemma rl_right_editing:
  assumes run: "rl_right s = Inr s'" and ed: "editing s"
  shows "editing s' \<and> same_below s s'"
proof (cases "position s < curlen s")
  case True
  with run obtain c where "s' = (putchar c s)\<lparr>position := position s + 1\<rparr>"
    by (auto simp add: rl_right_def then_do_eq_Inr)
  with ed True show ?thesis
    by (simp add: editing_def nul_free_def same_below_def putchar_def)
next
  case False
  with run ed show ?thesis
    by (simp add: rl_right_def)
qed

lemma readline_loop_byte:
  assumes "plain_byte c"
  shows "readline_loop L E K prompt (c # input) s =
     then_do (rl_insert L c s) (\<lambda>s1. readline_loop L E K prompt input s1)"
  using assms by (simp add: readline_loop.simps plain_byte_def)

lemma readline_loop_key:
  "readline_loop L E K prompt (key_bytes Key_backspace @ input) s =
     then_do (rl_backspace s) (\<lambda>s1. readline_loop L E K prompt input s1)"
  "readline_loop L E K prompt (key_bytes Key_delete @ input) s =
     then_do (rl_delete s) (\<lambda>s1. readline_loop L E K prompt input s1)"
  "readline_loop L E K prompt (key_bytes Key_home @ input) s =
     readline_loop L E K prompt input (rl_home s)"
  "readline_loop L E K prompt (key_bytes Key_end @ input) s =
     then_do (rl_end s) (\<lambda>s1. readline_loop L E K prompt input s1)"
  "readline_loop L E K prompt (key_bytes Key_left @ input) s =
     readline_loop L E K prompt input (rl_left s)"
  "readline_loop L E K prompt (key_bytes Key_right @ input) s =
     then_do (rl_right s) (\<lambda>s1. readline_loop L E K prompt input s1)"
  by (simp_all add: readline_loop.simps newline_def)

lemma readline_loop_keys:
  assumes "list_all edit_key ks" and "editing s"
    and "readline_loop L E K prompt (concat (map key_bytes ks) @ newline # rest) s = Inr (s', rest')"
  shows "editing s' \<and> same_below s s' \<and> rest' = rest"
  using assms
proof (induction ks arbitrary: s)
  case Nil
  then show ?case
    by (auto simp add: readline_loop.simps putchar_def editing_def nul_free_def same_below_def)
next
  case (Cons k ks)
  let ?input = "concat (map key_bytes ks) @ newline # rest"
  from Cons.prems(1) have keys: "list_all edit_key ks" and key: "edit_key k"
    by simp_all
  from Cons.prems(3)
  have run: "readline_loop L E K prompt (key_bytes k @ ?input) s = Inr (s', rest')"
    by simp
  have "\<exists>s1. editing s1 \<and> same_below s s1
          \<and> readline_loop L E K prompt ?input s1 = Inr (s', rest')"
  proof (cases k)
    case (Key_byte c)
    with key have plain: "plain_byte c" by simp
    from run obtain s1 where op: "rl_insert L c s = Inr s1"
      and next_run: "readline_loop L E K prompt ?input s1 = Inr (s', rest')"
      unfolding Key_byte by (auto simp add: readline_loop_byte [OF plain] then_do_eq_Inr)
    from plain have "c \<noteq> CHR 0x00" by (simp add: plain_byte_def)
    from rl_insert_editing [OF op Cons.prems(2) this] next_run show ?thesis by blast
  next
    case Key_backspace
    from run obtain s1 where op: "rl_backspace s = Inr s1"
      and next_run: "readline_loop L E K prompt ?input s1 = Inr (s', rest')"
      unfolding Key_backspace readline_loop_key by (auto simp add: then_do_eq_Inr)
    from rl_backspace_editing [OF op Cons.prems(2)] next_run show ?thesis by blast
  next
    case Key_delete
    from run obtain s1 where op: "rl_delete s = Inr s1"
      and next_run: "readline_loop L E K prompt ?input s1 = Inr (s', rest')"
      unfolding Key_delete readline_loop_key by (auto simp add: then_do_eq_Inr)
    from rl_delete_editing [OF op Cons.prems(2)] next_run show ?thesis by blast
  next
    case Key_home
    from run have "readline_loop L E K prompt ?input (rl_home s) = Inr (s', rest')"
      unfolding Key_home readline_loop_key .
    with rl_home_editing [OF Cons.prems(2)] show ?thesis by blast
  next
    case Key_end
    from run obtain s1 where op: "rl_end s = Inr s1"
      and next_run: "readline_loop L E K prompt ?input s1 = Inr (s', rest')"
      unfolding Key_end readline_loop_key by (auto simp add: then_do_eq_Inr)
    from rl_end_editing [OF op Cons.prems(2)] next_run show ?thesis by blast
  next
    case Key_left
    from run have "readline_loop L E K prompt ?input (rl_left s) = Inr (s', rest')"
      unfolding Key_left readline_loop_key .
    with rl_left_editing [OF Cons.prems(2)] show ?thesis by blast
  next
    case Key_right
    from run obtain s1 where op: "rl_right s = Inr s1"
      and next_run: "readline_loop L E K prompt ?input s1 = Inr (s', rest')"
      unfolding Key_right readline_loop_key by (auto simp add: then_do_eq_Inr)
    from rl_right_editing [OF op Cons.prems(2)] next_run show ?thesis by blast
  qed
  then obtain s1 where ed1: "editing s1" and b1: "same_below s s1"
    and next_run: "readline_loop L E K prompt ?input s1 = Inr (s', rest')"
    by blast
  from Cons.IH [OF keys ed1 next_run] b1 show ?case
    by (auto intro: same_below_trans)
qed

subsection \<open>Facts about the line editor: one session, and one after the other\<close>

lemma takeWhile_nul:
  assumes "\<forall>i<n. xs ! i \<noteq> CHR 0x00" and "n < length xs" and "xs ! n = CHR 0x00"
  shows "takeWhile (\<lambda>c. c \<noteq> CHR 0x00) xs = take n xs"
proof -
  have split: "xs = take n xs @ xs ! n # drop (Suc n) xs"
    using assms(2) by (rule id_take_nth_drop)
  have "x \<noteq> CHR 0x00" if "x \<in> set (take n xs)" for x
  proof -
    from that obtain i where "i < length (take n xs)" and "take n xs ! i = x"
      by (auto simp add: in_set_conv_nth)
    with assms(1) show ?thesis by auto
  qed
  then have "takeWhile (\<lambda>c. c \<noteq> CHR 0x00) (take n xs @ xs ! n # drop (Suc n) xs)
      = take n xs @ takeWhile (\<lambda>c. c \<noteq> CHR 0x00) (xs ! n # drop (Suc n) xs)"
    by (intro takeWhile_append2) simp
  with assms(3) have "takeWhile (\<lambda>c. c \<noteq> CHR 0x00) (take n xs @ xs ! n # drop (Suc n) xs)
      = take n xs"
    by simp
  with split show ?thesis by simp
qed

lemma clever_readline_session:
  assumes keys: "list_all edit_key ks"
    and run: "clever_readline L E K prompt (session ks) s = Inr (p, s', rest)"
    and hp: "0 \<le> histposition s"
  shows "p = histposition s * int (MAX_CMDLINE L)"
    and "length (history s') = length (history s)"
    and "take (nat p) (history s') = take (nat p) (history s)"
    and "take (length (string_at s' p) + 1) (drop (nat p) (history s'))
           = string_at s' p @ [CHR 0x00]"
    and "histposition s' = (if string_at s' p = [] then histposition s
                            else (histposition s + 1) mod int (KCONSOLE_HISTORY L))"
proof -
  let ?M = "MAX_CMDLINE L" and ?H = "KCONSOLE_HISTORY L"
  let ?s0 = "print (prompt @ ''> '')
               (s\<lparr>curlen := 0, position := 0, current := histposition s * int ?M\<rparr>)"
  from run obtain s1 rest1 s2 where
    loop: "readline_loop L E K prompt (session ks) ?s0 = Inr (s1, rest1)"
    and w: "cur_write (curlen s1) (CHR 0x00)
              (if curlen s1 \<noteq> 0
               then s1\<lparr>histposition := (histposition s1 + 1) mod int ?H\<rparr> else s1) = Inr s2"
    and res: "p = current s2" "s' = s2" "rest = rest1"
    unfolding clever_readline_def by (auto simp add: then_do_eq_Inr)
  have ed0: "editing ?s0"
    using hp by (auto simp add: editing_def nul_free_def print_def)
  from loop have "readline_loop L E K prompt (concat (map key_bytes ks) @ newline # []) ?s0
      = Inr (s1, rest1)"
    by (simp add: session_def)
  from readline_loop_keys [OF keys ed0 this]
  have ed1: "editing s1" and b1: "same_below ?s0 s1"
    by simp_all
  let ?sx = "if curlen s1 \<noteq> 0
             then s1\<lparr>histposition := (histposition s1 + 1) mod int ?H\<rparr> else s1"
  let ?n = "curlen s1"
  have cur1: "current s1 = histposition s * int ?M" and hp1: "histposition s1 = histposition s"
    and len1: "length (history s1) = length (history s)"
    and low1: "take (nat (current s1)) (history s1) = take (nat (current s1)) (history s)"
    using b1 by (simp_all add: same_below_def print_def)
  have n0: "0 \<le> ?n" and curx: "0 \<le> current ?sx" and free: "nul_free s1 ?n"
    using ed1 by (simp_all add: editing_def)
  note eq = cur_write_Inr(1) [OF w curx n0] and inb = cur_write_Inr(2) [OF w curx n0]
  have hist2: "history s2 = (history s1)[nat (current s1 + ?n) := CHR 0x00]"
    by (subst eq) simp
  have cur2: "current s2 = current s1"
    by (subst eq) simp
  have hp2: "histposition s2 = (if ?n \<noteq> 0 then (histposition s + 1) mod int ?H else histposition s)"
    by (subst eq) (simp add: hp1)
  show p: "p = histposition s * int ?M"
    using res cur2 cur1 by simp
  show "length (history s') = length (history s)"
    using res hist2 len1 by simp
  have cur1_0: "0 \<le> current s1"
    using ed1 by (simp add: editing_def)
  have "nat (current s1) \<le> nat (current s1 + ?n)"
    using n0 by simp
  then have "take (nat (current s1)) (history s2) = take (nat (current s1)) (history s1)"
    unfolding hist2 by simp
  then show "take (nat p) (history s') = take (nat p) (history s)"
    using low1 res cur2 by simp
  let ?xs = "drop (nat p) (history s')"
  have "current s1 + ?n < int (length (history s1))"
    using inb by (simp split: if_splits)
  then have k: "nat (current s1 + ?n) < length (history s1)"
    using n0 cur1_0 by arith
  have idx: "nat p + nat ?n = nat (current s1 + ?n)"
    using res cur2 n0 cur1_0 by simp
  have inx: "nat ?n < length ?xs"
    using k idx res hist2 by simp
  have at_n: "?xs ! nat ?n = CHR 0x00"
    using k idx res hist2 by simp
  have before: "\<forall>i < nat ?n. ?xs ! i \<noteq> CHR 0x00"
  proof (intro allI impI)
    fix i assume i: "i < nat ?n"
    then have "0 \<le> int i \<and> int i < ?n" by simp
    with free have ne: "history s1 ! nat (current s1 + int i) \<noteq> CHR 0x00"
      by (simp add: nul_free_def)
    have "nat p + i = nat (current s1 + int i)"
      using res cur2 cur1_0 by simp
    moreover have "nat (current s1 + int i) \<noteq> nat (current s1 + ?n)"
      using i cur1_0 by simp
    moreover have "nat p + i < length (history s')"
      using i inx by simp
    ultimately show "?xs ! i \<noteq> CHR 0x00"
      using ne res hist2 by simp
  qed
  have str: "string_at s' p = take (nat ?n) ?xs"
    unfolding string_at_def using before inx at_n by (rule takeWhile_nul)
  then have lstr: "length (string_at s' p) = nat ?n"
    using inx by simp
  show "take (length (string_at s' p) + 1) ?xs = string_at s' p @ [CHR 0x00]"
    unfolding lstr using take_Suc_conv_app_nth [OF inx] at_n str by simp
  have "string_at s' p = [] \<longleftrightarrow> ?n = 0"
    using lstr n0 by (metis length_0_conv nat_0_iff nat_zero_as_int order_antisym_conv)
  then show "histposition s' = (if string_at s' p = [] then histposition s
                            else (histposition s + 1) mod int ?H)"
    using res hp2 by simp
qed

lemma take_drop_below:
  assumes "a + k \<le> n"
  shows "take k (drop a (take n xs)) = take k (drop a xs)"
  using assms by (simp add: drop_take min_def)

lemma row_holds_frame:
  assumes "row_holds L s r l" and "take n (history s') = take n (history s)"
    and "(r + 1) * MAX_CMDLINE L \<le> n"
  shows "row_holds L s' r l"
proof -
  let ?M = "MAX_CMDLINE L"
  from assms(1) have l: "length l < ?M" by (simp add: row_holds_def)
  with assms(3) have le: "r * ?M + (length l + 1) \<le> n" by simp
  have "take (length l + 1) (drop (r * ?M) (history s'))
      = take (length l + 1) (drop (r * ?M) (take n (history s')))"
    using le by (rule take_drop_below [symmetric])
  also have "\<dots> = take (length l + 1) (drop (r * ?M) (take n (history s)))"
    using assms(2) by simp
  also have "\<dots> = take (length l + 1) (drop (r * ?M) (history s))"
    using le by (rule take_drop_below)
  finally show ?thesis
    using assms(1) by (simp add: row_holds_def)
qed

lemma row_holds_string:
  assumes "row_holds L s r l"
  shows "arr_strlen (history s) (int (r * MAX_CMDLINE L)) = Inr (int (length l))"
    and "string_at s (int (r * MAX_CMDLINE L)) = l"
    and "r * MAX_CMDLINE L + length l < length (history s)"
    and "history s ! (r * MAX_CMDLINE L + length l) = CHR 0x00"
proof -
  let ?xs = "drop (r * MAX_CMDLINE L) (history s)"
  from assms have nonul: "CHR 0x00 \<notin> set l"
    and tk: "take (length l + 1) ?xs = l @ [CHR 0x00]"
    by (simp_all add: row_holds_def)
  have "?xs = take (length l + 1) ?xs @ drop (length l + 1) ?xs"
    by (rule append_take_drop_id [symmetric])
  then have xs: "?xs = l @ CHR 0x00 # drop (length l + 1) ?xs"
    unfolding tk by simp
  have tw: "takeWhile (\<lambda>c. c \<noteq> CHR 0x00) ?xs = l"
    by (subst xs) (use nonul in \<open>auto simp add: takeWhile_tail\<close>)
  have nul: "CHR 0x00 \<in> set ?xs"
    by (subst xs) simp
  have idx: "nat (int (r * MAX_CMDLINE L)) = r * MAX_CMDLINE L"
    by (rule nat_int)
  show "arr_strlen (history s) (int (r * MAX_CMDLINE L)) = Inr (int (length l))"
    unfolding arr_strlen_def idx using tw nul by simp
  show "string_at s (int (r * MAX_CMDLINE L)) = l"
    unfolding string_at_def idx using tw .
  have "length l < length ?xs"
    by (subst xs) simp
  then show inb: "r * MAX_CMDLINE L + length l < length (history s)"
    by simp
  have "?xs ! length l = CHR 0x00"
    by (subst xs) simp
  then show "history s ! (r * MAX_CMDLINE L + length l) = CHR 0x00"
    using inb by simp
qed

lemma arr_write_nat: "k < length xs \<Longrightarrow> arr_write xs (int k) c = Inr (xs[k := c])"
  by (simp add: arr_write_def)

lemma row_holds_cong:
  "history s' = history s \<Longrightarrow> row_holds L s' r l = row_holds L s r l"
  by (simp add: row_holds_def)

lemma read_lines_append_Inr:
  assumes "read_lines L E K prompt xs s = Inr (ls, s1)"
    and "read_lines L E K prompt ys s1 = Inr (ls', s2)"
  shows "read_lines L E K prompt (xs @ ys) s = Inr (ls @ ls', s2)"
  using assms
proof (induction xs arbitrary: s ls)
  case Nil
  then show ?case by simp
next
  case (Cons x xs)
  from Cons.prems(1) obtain p sa rest lsa where
    first: "clever_readline L E K prompt x s = Inr (p, sa, rest)"
    and more: "read_lines L E K prompt xs sa = Inr (lsa, s1)"
    and ls: "ls = string_at sa p # lsa"
    by (auto simp add: then_do_eq_Inr)
  from Cons.IH [OF more Cons.prems(2)] show ?case
    by (simp add: first ls)
qed

lemma read_lines_sessions:
  assumes "list_all (list_all edit_key) sessions"
    and "read_lines L E K prompt (map session sessions) s = Inr (lines, s')"
    and "list_all (\<lambda>l. l \<noteq> [] \<and> length l < MAX_CMDLINE L) lines"
    and "length stored + length sessions \<le> KCONSOLE_HISTORY L"
    and "length (history s) = KCONSOLE_HISTORY L * MAX_CMDLINE L"
    and "histposition s = int (length stored mod KCONSOLE_HISTORY L)"
    and "\<forall>r < length stored. row_holds L s r (stored ! r)"
  shows "length lines = length sessions
     \<and> length (history s') = KCONSOLE_HISTORY L * MAX_CMDLINE L
     \<and> histposition s' = int ((length stored + length lines) mod KCONSOLE_HISTORY L)
     \<and> (\<forall>r < length stored + length lines. row_holds L s' r ((stored @ lines) ! r))"
  using assms
proof (induction sessions arbitrary: s stored lines)
  case Nil
  then show ?case by auto
next
  case (Cons ks sessions)
  let ?M = "MAX_CMDLINE L" and ?H = "KCONSOLE_HISTORY L"
  let ?n = "length stored"
  from Cons.prems(1) have keys: "list_all edit_key ks" and keys': "list_all (list_all edit_key) sessions"
    by simp_all
  from Cons.prems(2) obtain p s1 rest ls where
    first: "clever_readline L E K prompt (session ks) s = Inr (p, s1, rest)"
    and more: "read_lines L E K prompt (map session sessions) s1 = Inr (ls, s')"
    and lines: "lines = string_at s1 p # ls"
    by (auto simp add: then_do_eq_Inr)
  let ?l = "string_at s1 p"
  from Cons.prems(3) have l: "?l \<noteq> []" "length ?l < ?M" and ok': "list_all (\<lambda>l. l \<noteq> [] \<and> length l < ?M) ls"
    by (simp_all add: lines)
  have n: "?n < ?H"
    using Cons.prems(4) by simp
  then have hp: "histposition s = int ?n"
    using Cons.prems(6) by simp
  then have hp0: "0 \<le> histposition s"
    by simp
  note sess = clever_readline_session [OF keys first hp0]
  have p: "nat p = ?n * ?M"
    using sess(1) hp by (simp add: nat_mult_distrib)
  have size1: "length (history s1) = ?H * ?M"
    using sess(2) Cons.prems(5) by simp
  have hp1: "histposition s1 = int (length (stored @ [?l]) mod ?H)"
    using sess(5) l(1) hp by (simp add: zmod_int add.commute)
  have rows1: "\<forall>r < length (stored @ [?l]). row_holds L s1 r ((stored @ [?l]) ! r)"
  proof (intro allI impI)
    fix r assume r: "r < length (stored @ [?l])"
    show "row_holds L s1 r ((stored @ [?l]) ! r)"
    proof (cases "r < ?n")
      case True
      then have "row_holds L s r (stored ! r)"
        using Cons.prems(7) by simp
      moreover have "take (?n * ?M) (history s1) = take (?n * ?M) (history s)"
        using sess(3) p by simp
      moreover have "(r + 1) * ?M \<le> ?n * ?M"
        using True by (intro mult_le_mono1) simp
      ultimately have "row_holds L s1 r (stored ! r)"
        by (rule row_holds_frame)
      with True show ?thesis
        by (simp add: nth_append)
    next
      case False
      with r have r_eq: "r = ?n" by simp
      have "CHR 0x00 \<notin> set ?l"
        unfolding string_at_def by (auto dest: set_takeWhileD)
      with l(2) sess(4) have "row_holds L s1 ?n ?l"
        by (simp add: row_holds_def p)
      then show ?thesis
        by (simp add: r_eq)
    qed
  qed
  have room': "length (stored @ [?l]) + length sessions \<le> ?H"
    using Cons.prems(4) by simp
  from Cons.IH [OF keys' more ok' room' size1 hp1 rows1] show ?case
    by (simp add: lines)
qed

subsection \<open>Facts about the line editor: the "previous" key\<close>

lemma readline_loop_up:
  "readline_loop L E K prompt (key_up @ input) s
     = then_do (rl_history L True s) (\<lambda>s1. readline_loop L E K prompt input s1)"
  by (simp add: readline_loop.simps key_up_def newline_def)

lemma readline_loop_newline:
  "readline_loop L E K prompt (newline # input) s = Inr (putchar newline s, input)"
  by (simp add: readline_loop.simps)

lemma previous_Suc: "previous (Suc k) = key_up @ previous k"
  by (simp add: previous_def)

lemma rl_history_up_row:
  assumes row: "row_holds L s r l"
    and r: "int r = (histposition s - 1) mod int (KCONSOLE_HISTORY L)"
    and hp: "0 \<le> histposition s" "histposition s < int (KCONSOLE_HISTORY L)"
  shows "\<exists>out. rl_history L True s =
     Inr (s\<lparr>histposition := int r, current := int (r * MAX_CMDLINE L),
            curlen := int (length l), position := int (length l), terminal := out\<rparr>)"
proof -
  let ?M = "MAX_CMDLINE L" and ?H = "KCONSOLE_HISTORY L"
  have H: "0 < int ?H"
    using hp by simp
  have len: "arr_strlen (history s) (int r * int ?M) = Inr (int (length l))"
    using row_holds_string(1) [OF row] by simp
  let ?out = "terminal s @ replicate (nat (position s)) (CHR 0x08)
      @ replicate (nat (curlen s)) (CHR '' '') @ replicate (nat (curlen s)) (CHR 0x08)
      @ take (length l) (drop (nat (int r * int ?M)) (history s))"
  show ?thesis
  proof (cases "histposition s = 0")
    case True
    then have "int ?H - 1 = int r"
      using H r by (simp add: zmod_minus1)
    with True len show ?thesis
      by (intro exI [of _ ?out])
        (simp add: rl_history_def Let_def cur_strlen_def rdln_print_c_def print_def)
  next
    case False
    with hp have "\<not> histposition s < 1"
      by simp
    with len r [symmetric] show ?thesis
      by (intro exI [of _ ?out])
        (simp add: rl_history_def Let_def cur_strlen_def rdln_print_c_def print_def)
  qed
qed

lemma readline_loop_up_rows:
  assumes "\<forall>t. 1 \<le> t \<and> t \<le> Suc k \<longrightarrow>
             row_holds L s (nat ((histposition s - int t) mod int (KCONSOLE_HISTORY L)))
               (content (nat ((histposition s - int t) mod int (KCONSOLE_HISTORY L))))"
    and "0 \<le> histposition s" and "histposition s < int (KCONSOLE_HISTORY L)"
    and "j = nat ((histposition s - int (Suc k)) mod int (KCONSOLE_HISTORY L))"
  shows "\<exists>out. readline_loop L E K prompt (previous (Suc k) @ newline # rest) s =
     Inr (s\<lparr>histposition := int j, current := int (j * MAX_CMDLINE L),
            curlen := int (length (content j)), position := int (length (content j)),
            terminal := out\<rparr>, rest)"
  using assms
proof (induction k arbitrary: s j)
  case 0
  let ?H = "int (KCONSOLE_HISTORY L)"
  have H: "0 < ?H" using "0.prems" by simp
  have j: "int j = (histposition s - 1) mod ?H"
    using "0.prems"(4) H by simp
  from "0.prems"(1) [rule_format, of 1] have "row_holds L s j (content j)"
    using "0.prems"(4) by simp
  from rl_history_up_row [OF this j "0.prems"(2,3)] obtain out where
    "rl_history L True s =
       Inr (s\<lparr>histposition := int j, current := int (j * MAX_CMDLINE L),
              curlen := int (length (content j)), position := int (length (content j)),
              terminal := out\<rparr>)"
    by blast
  then show ?case
    by (intro exI [of _ "out @ [newline]"])
      (simp add: previous_def readline_loop_up readline_loop_newline putchar_def)
next
  case (Suc k)
  let ?H = "int (KCONSOLE_HISTORY L)" and ?M = "MAX_CMDLINE L"
  have H: "0 < ?H" using Suc.prems by simp
  let ?r = "nat ((histposition s - 1) mod ?H)"
  have r: "int ?r = (histposition s - 1) mod ?H"
    using H by simp
  from Suc.prems(1) [rule_format, of 1] have "row_holds L s ?r (content ?r)"
    by simp
  from rl_history_up_row [OF this r Suc.prems(2,3)] obtain out where
    step: "rl_history L True s =
       Inr (s\<lparr>histposition := int ?r, current := int (?r * ?M),
              curlen := int (length (content ?r)), position := int (length (content ?r)),
              terminal := out\<rparr>)"
    by blast
  let ?s1 = "s\<lparr>histposition := int ?r, current := int (?r * ?M),
              curlen := int (length (content ?r)), position := int (length (content ?r)),
              terminal := out\<rparr>"
  have shift: "(histposition ?s1 - int t) mod ?H = (histposition s - int (Suc t)) mod ?H" for t
    using H by (simp add: mod_diff_left_eq algebra_simps)
  have rows1: "\<forall>t. 1 \<le> t \<and> t \<le> Suc k \<longrightarrow>
             row_holds L ?s1 (nat ((histposition ?s1 - int t) mod ?H))
               (content (nat ((histposition ?s1 - int t) mod ?H)))"
  proof (intro allI impI)
    fix t assume t: "1 \<le> t \<and> t \<le> Suc k"
    then have "1 \<le> Suc t \<and> Suc t \<le> Suc (Suc k)" by simp
    with Suc.prems(1)
    have "row_holds L s (nat ((histposition s - int (Suc t)) mod ?H))
               (content (nat ((histposition s - int (Suc t)) mod ?H)))"
      by blast
    then show "row_holds L ?s1 (nat ((histposition ?s1 - int t) mod ?H))
               (content (nat ((histposition ?s1 - int t) mod ?H)))"
      unfolding shift by (simp add: row_holds_def)
  qed
  have range1: "0 \<le> histposition ?s1" "histposition ?s1 < ?H"
    using H by simp_all
  have j1: "j = nat ((histposition ?s1 - int (Suc k)) mod ?H)"
    unfolding shift using Suc.prems(4) .
  from Suc.IH [OF rows1 range1 j1] obtain out' where
    "readline_loop L E K prompt (previous (Suc k) @ newline # rest) ?s1 =
       Inr (?s1\<lparr>histposition := int j, current := int (j * ?M),
              curlen := int (length (content j)), position := int (length (content j)),
              terminal := out'\<rparr>, rest)"
    by blast
  then have "readline_loop L E K prompt (previous (Suc (Suc k)) @ newline # rest) s =
       Inr (s\<lparr>histposition := int j, current := int (j * ?M),
              curlen := int (length (content j)), position := int (length (content j)),
              terminal := out'\<rparr>, rest)"
    unfolding previous_Suc [of "Suc k"] append_assoc readline_loop_up step by simp
  then show ?case
    by blast
qed

lemma clever_readline_previous_rows:
  assumes rows: "\<forall>t. 1 \<le> t \<and> t \<le> Suc k \<longrightarrow>
             row_holds L s (nat ((histposition s - int t) mod int (KCONSOLE_HISTORY L)))
               (content (nat ((histposition s - int t) mod int (KCONSOLE_HISTORY L))))"
    and hp: "0 \<le> histposition s" "histposition s < int (KCONSOLE_HISTORY L)"
    and j: "j = nat ((histposition s - int (Suc k)) mod int (KCONSOLE_HISTORY L))"
  shows "\<exists>s'. clever_readline L E K prompt (previous (Suc k) @ [newline]) s
            = Inr (int (j * MAX_CMDLINE L), s', [])
     \<and> string_at s' (int (j * MAX_CMDLINE L)) = content j
     \<and> history s' = history s
     \<and> histposition s' = (if content j = [] then int j
                           else (int j + 1) mod int (KCONSOLE_HISTORY L))"
proof -
  let ?M = "MAX_CMDLINE L" and ?H = "KCONSOLE_HISTORY L"
  let ?s0 = "print (prompt @ ''> '')
               (s\<lparr>curlen := 0, position := 0, current := histposition s * int ?M\<rparr>)"
  have rows0: "\<forall>t. 1 \<le> t \<and> t \<le> Suc k \<longrightarrow>
             row_holds L ?s0 (nat ((histposition ?s0 - int t) mod int ?H))
               (content (nat ((histposition ?s0 - int t) mod int ?H)))"
    using rows by (simp add: row_holds_def print_def)
  have range0: "0 \<le> histposition ?s0" "histposition ?s0 < int ?H"
    and j0: "j = nat ((histposition ?s0 - int (Suc k)) mod int ?H)"
    using hp j by (simp_all add: print_def)
  from readline_loop_up_rows [OF rows0 range0 j0, of E K prompt "[]"] obtain out where
    loop: "readline_loop L E K prompt (previous (Suc k) @ [newline]) ?s0 =
       Inr (?s0\<lparr>histposition := int j, current := int (j * ?M),
              curlen := int (length (content j)), position := int (length (content j)),
              terminal := out\<rparr>, [])"
    by blast
  let ?s1 = "?s0\<lparr>histposition := int j, current := int (j * ?M),
              curlen := int (length (content j)), position := int (length (content j)),
              terminal := out\<rparr>"
  let ?sx = "if curlen ?s1 \<noteq> 0
             then ?s1\<lparr>histposition := (histposition ?s1 + 1) mod int ?H\<rparr> else ?s1"
  from rows [rule_format, of "Suc k"] j have row: "row_holds L s j (content j)"
    by simp
  note str = row_holds_string [OF row]
  have hx: "history ?sx = history s" and cx: "current ?sx = int (j * ?M)"
    by (simp_all add: print_def)
  have at: "current ?sx + curlen ?s1 = int (j * ?M + length (content j))"
    by (simp add: print_def)
  have "arr_write (history ?sx) (current ?sx + curlen ?s1) (CHR 0x00)
      = Inr ((history s)[j * ?M + length (content j) := CHR 0x00])"
    unfolding hx at using str(3) by (rule arr_write_nat)
  also have "(history s)[j * ?M + length (content j) := CHR 0x00] = history s"
    using str(4) by (simp add: list_update_same_conv str(3))
  finally have "arr_write (history ?sx) (current ?sx + curlen ?s1) (CHR 0x00) = Inr (history s)" .
  then have w: "cur_write (curlen ?s1) (CHR 0x00) ?sx = Inr (?sx\<lparr>history := history s\<rparr>)"
    by (simp add: cur_write_def)
  let ?s2 = "?sx\<lparr>history := history s\<rparr>"
  have "clever_readline L E K prompt (previous (Suc k) @ [newline]) s
      = then_do (cur_write (curlen ?s1) (CHR 0x00) ?sx) (\<lambda>s2. Inr (current s2, s2, []))"
    unfolding clever_readline_def loop by (simp only: then_do_Inr prod.case)
  also have "\<dots> = Inr (current ?s2, ?s2, [])"
    unfolding w by (simp only: then_do_Inr)
  finally have ret0: "clever_readline L E K prompt (previous (Suc k) @ [newline]) s
      = Inr (current ?s2, ?s2, [])" .
  have "current ?s2 = int (j * ?M)"
    using cx by simp
  with ret0 have ret: "clever_readline L E K prompt (previous (Suc k) @ [newline]) s
      = Inr (int (j * ?M), ?s2, [])"
    by (simp only:)
  have "row_holds L ?s2 j (content j)"
    using row by (simp add: row_holds_def)
  then have "string_at ?s2 (int (j * ?M)) = content j"
    by (rule row_holds_string)
  moreover have "history ?s2 = history s"
    by simp
  moreover have "histposition ?s2 = (if content j = [] then int j else (int j + 1) mod int ?H)"
    by (simp add: print_def)
  ultimately show ?thesis
    using ret by (intro exI [of _ ?s2]) simp
qed

lemma empty_row_holds:
  assumes "string_at s (int (r * MAX_CMDLINE L)) = []"
    and "r * MAX_CMDLINE L < length (history s)" and "0 < MAX_CMDLINE L"
  shows "row_holds L s r []"
proof -
  let ?xs = "drop (r * MAX_CMDLINE L) (history s)"
  have idx: "nat (int (r * MAX_CMDLINE L)) = r * MAX_CMDLINE L"
    by (rule nat_int)
  from assms(2) obtain x xs where xs: "?xs = x # xs"
    by (cases ?xs) auto
  from assms(1) have "takeWhile (\<lambda>c. c \<noteq> CHR 0x00) ?xs = []"
    unfolding string_at_def idx .
  then have "x = CHR 0x00"
    unfolding xs by (simp split: if_splits)
  then show ?thesis
    using assms(3) by (simp add: row_holds_def xs)
qed

lemmas ex_console_simps =
  ex_console_def ex_cmd_def unlocked_def cmd_register_def lock_cmd_lock_def
  unlock_cmd_lock_def spinlock_lock_def spinlock_unlock_def strlen_def insert_Diff_if

subsection \<open>Claims about cmd_register\<close>

text \<open>
  C1 (as stated): registering a descriptor whose name agrees with a registered name up
  to the length of the shorter of the two ("dump" and "dumpall") is rejected. The code
  compares up to the length of the longer name, so the terminator of the shorter name
  takes part in the comparison and the two names differ: with "dump" registered,
  "dumpall" is accepted and appended, and the same with the two names exchanged.
\<close>

theorem cmd_register_prefix_counterexample:
  "take 4 (name (cmds (ex_console [1]) 2)) = name (cmds (ex_console [1]) 1)
   \<and> cmd_register 2 (ex_console [1]) = Inr (1, ex_console [1, 2])
   \<and> cmd_register 1 (ex_console [2]) = Inr (1, ex_console [2, 1])"
  by (simp add: ex_console_simps)

text \<open>
  C1 (amended): for a descriptor that is not linked yet, cmd_register returns 0 and
  leaves the state as it was exactly when a linked descriptor has the identical name;
  otherwise (also when a linked name is a proper prefix or a proper extension of the new
  name) it returns 1 and appends the descriptor.
\<close>

theorem cmd_register_collision_iff:
  assumes "unlocked s" and "cmd \<notin> set (cmd_head s)"
  shows "cmd_register cmd s =
     (if \<exists>h \<in> set (cmd_head s). name (cmds s h) = name (cmds s cmd)
      then Inr (0, s) else Inr (1, s\<lparr>cmd_head := cmd_head s @ [cmd]\<rparr>))"
  using assms by (auto simp add: cmd_register_unlocked image_iff)

theorem cmd_register_collision_iff_witness:
  "unlocked (ex_console [1, 2]) \<and> 3 \<notin> set (cmd_head (ex_console [1, 2]))
   \<and> cmd_register 3 (ex_console [1, 2]) = Inr (1, ex_console [1, 2, 3])
   \<and> unlocked (ex_console [1, 5]) \<and> 6 \<notin> set (cmd_head (ex_console [1, 5]))
   \<and> cmd_register 6 (ex_console [1, 5]) = Inr (0, ex_console [1, 5])"
  using cmd_register_collision_iff [of "ex_console [1, 2]" 3]
    cmd_register_collision_iff [of "ex_console [1, 5]" 6]
  by (simp add: ex_console_def ex_cmd_def unlocked_def)

text \<open>
  C5: registering a descriptor that is already linked returns 0 and leaves the whole
  state, so the list of linked descriptors too, as it was.
\<close>

theorem cmd_register_same_instance:
  assumes "unlocked s" and "cmd \<in> set (cmd_head s)"
  shows "cmd_register cmd s = Inr (0, s)"
  using assms by (simp add: cmd_register_unlocked)

theorem cmd_register_same_instance_witness:
  "unlocked (ex_console [1, 2]) \<and> 2 \<in> set (cmd_head (ex_console [1, 2]))
   \<and> cmd_register 2 (ex_console [1, 2]) = Inr (0, ex_console [1, 2])"
  using cmd_register_same_instance [of "ex_console [1, 2]" 2]
  by (simp add: ex_console_def unlocked_def)

text \<open>
  C9: cmd_register writes no descriptor: after the call every descriptor (name,
  description, argument schema, handler) and every string buffer is as before, and the
  state is either untouched (return value 0) or differs only by the new descriptor
  appended to the list (return value 1).
\<close>

theorem cmd_register_frame:
  assumes "unlocked s"
  shows "\<exists>rc s'. cmd_register cmd s = Inr (rc, s') \<and> cmds s' = cmds s \<and> strbuf s' = strbuf s
           \<and> (rc = 0 \<and> s' = s \<or> rc = 1 \<and> s' = s\<lparr>cmd_head := cmd_head s @ [cmd]\<rparr>)"
  using assms by (simp add: cmd_register_unlocked)

theorem cmd_register_frame_witness:
  "unlocked (ex_console [1])
   \<and> (\<exists>rc s'. cmd_register 2 (ex_console [1]) = Inr (rc, s')
        \<and> cmds s' = cmds (ex_console [1]) \<and> strbuf s' = strbuf (ex_console [1])
        \<and> rc = 1 \<and> s' = ex_console [1, 2])"
  using cmd_register_frame [of "ex_console [1]" 2]
  by (simp add: ex_console_simps)

subsection \<open>Claims about the parser\<close>

text \<open>
  C2 (the code fails the claim): an integer argument that names a symbol the symbol table
  resolves does not parse. The symbol "kinit" is resolved (return code 0, address 4096),
  and for "&kinit", "kinit" and "*kinit" alike parse_int_arg prints "No symbol
  information available.", returns -1 and leaves the result word (7 here) as it was: the
  \<open>default\<close> case of the \<open>switch\<close> on the return code also takes the return code of
  a successful lookup.
\<close>

theorem parse_int_arg_resolved_symbol_fails:
  "symtab_addr_lookup ex_env ''kinit'' = (0, 4096)
   \<and> parse_int_arg ex_env ''&kinit'' 6 7
        = (- 1, 7, [''No symbol information available.'' @ [newline]])
   \<and> parse_int_arg ex_env ''kinit'' 5 7
        = (- 1, 7, [''No symbol information available.'' @ [newline]])
   \<and> parse_int_arg ex_env ''*kinit'' 6 7
        = (- 1, 7, [''No symbol information available.'' @ [newline]])"
  by code_simp

text \<open>
  C3 (as stated): after a successful parse the matched descriptor's lock is still held.
  The code releases it before it returns the descriptor: parsing "dump" returns
  descriptor 1 with nothing printed, \<open>cmd_lock\<close> free and no descriptor lock held.
\<close>

theorem parse_cmdline_lock_counterexample:
  "returned (parse_cmdline ex_env ''dump'' 4 (ex_console [1, 2])) = Inr (Some 1, [], False, {})"
  by code_simp

text \<open>
  C3 (amended): let parse_cmdline be called with no lock held and let it return. Then no
  lock is held at the return, whether it returns a descriptor or none. When it returns the
  descriptor \<open>c\<close>, the lookup has returned with the lock of \<open>c\<close> as the only
  descriptor lock held; that lock is still the only one held in every state the loop over
  the declared arguments passes through, the state after \<open>m\<close> arguments for every
  \<open>m\<close> up to \<open>argc\<close> (the state the loop answers when it is run for \<open>m\<close>
  arguments only, from which the loop for all \<open>argc\<close> arguments goes on); and
  parse_cmdline itself releases it after the loop, before it returns.
  The loop of kconsole then calls the handler in the state parse_cmdline returned, in
  which no lock is held, and goes on with the state the handler returns: it releases
  nothing after the call.
\<close>

theorem parse_cmdline_releases_locks:
  assumes free: "unlocked s"
    and run: "parse_cmdline E cmdline cmdlen s = Inr (r, s')"
  shows "unlocked s'
     \<and> (\<forall>c. r = Some c \<longrightarrow>
          (\<exists>start end s1 x s2.
              parse_argument E cmdline cmdlen 0 = (True, start, end)
            \<and> then_do (lock_cmd_lock s) (\<lambda>s0. find_cmd cmdline start end (cmd_head s0) s0)
                = Inr (Some c, s1)
            \<and> locks s1 = {c}
            \<and> (\<forall>m \<le> argc (cmds s1 c). \<exists>err e sm.
                  parse_args E cmdline cmdlen c m 0 0 end (unlock_cmd_lock s1)
                    = Inr (Some (err, e), sm)
                  \<and> locks sm = {c}
                  \<and> parse_args E cmdline cmdlen c (argc (cmds s1 c)) 0 0 end (unlock_cmd_lock s1)
                      = parse_args E cmdline cmdlen c (argc (cmds s1 c)) m err e sm)
            \<and> parse_args E cmdline cmdlen c (argc (cmds s1 c)) 0 0 end (unlock_cmd_lock s1)
                = Inr (Some x, s2)
            \<and> s' = spinlock_unlock c s2))
     \<and> (cmdlen = strlen cmdline \<and> (kcon \<or> cmdline \<noteq> ''exit'') \<longrightarrow>
          kconsole_body E handler kcon cmdline s =
            (case r of
               None \<Rightarrow> Inr (True, s')
             | Some c \<Rightarrow>
                 then_do (handler (func (cmds s' c)) (argv (cmds s' c)) s') (\<lambda>s2. Inr (True, s2))))"
proof (intro conjI allI impI)
  obtain found start "end" where pa: "parse_argument E cmdline cmdlen 0 = (found, start, end)"
    by (cases "parse_argument E cmdline cmdlen 0") auto
  let ?P = "\<lambda>h. strncmp (name (cmds s h)) (drop start cmdline)
                      (max (strlen (name (cmds s h))) (end - start + 1)) = 0"
  let ?s0 = "s\<lparr>cmd_lock := True\<rparr>"
  have s0: "lock_cmd_lock s = Inr ?s0" "locks ?s0 = {}"
    using free by (simp_all add: lock_cmd_lock_def unlocked_def)
  show "unlocked s'"
  proof (cases found)
    case False
    with run pa free show ?thesis by (simp add: parse_cmdline_def)
  next
    case True
    from pa True have "parse_argument E cmdline cmdlen 0 = (True, start, end)" by simp
    note eq = parse_cmdline_unlocked_eq [OF free this]
    show ?thesis
    proof (cases "find ?P (cmd_head s)")
      case None
      with run free eq show ?thesis
        by (auto simp add: printf_def unlocked_def)
    next
      case (Some c)
      with run eq
      obtain r' s2 where
        pargs: "parse_args E cmdline cmdlen c (argc (cmds s c)) 0 0 end (s\<lparr>locks := {c}\<rparr>) = Inr (r', s2)"
        and fin: "parse_cmdline_tail E cmdline cmdlen c r' s2 = Inr (r, s')"
        by (auto simp add: then_do_eq_Inr)
      from parse_args_locks [OF pargs] free
      have l2: "\<not> cmd_lock s2" "locks s2 = (if r' = None then {} else {c})"
        by (simp_all add: unlocked_def)
      from fin l2 show ?thesis
        by (auto simp add: parse_cmdline_tail_def unlocked_def spinlock_unlock_def printf_def
            split: option.splits if_splits)
    qed
  qed
  show "\<exists>start end s1 x s2.
              parse_argument E cmdline cmdlen 0 = (True, start, end)
            \<and> then_do (lock_cmd_lock s) (\<lambda>s0. find_cmd cmdline start end (cmd_head s0) s0)
                = Inr (Some c, s1)
            \<and> locks s1 = {c}
            \<and> (\<forall>m \<le> argc (cmds s1 c). \<exists>err e sm.
                  parse_args E cmdline cmdlen c m 0 0 end (unlock_cmd_lock s1)
                    = Inr (Some (err, e), sm)
                  \<and> locks sm = {c}
                  \<and> parse_args E cmdline cmdlen c (argc (cmds s1 c)) 0 0 end (unlock_cmd_lock s1)
                      = parse_args E cmdline cmdlen c (argc (cmds s1 c)) m err e sm)
            \<and> parse_args E cmdline cmdlen c (argc (cmds s1 c)) 0 0 end (unlock_cmd_lock s1)
                = Inr (Some x, s2)
            \<and> s' = spinlock_unlock c s2"
    if r: "r = Some c" for c
  proof -
    from run r pa have found: found
      by (cases found) (simp_all add: parse_cmdline_def)
    with pa have pa': "parse_argument E cmdline cmdlen 0 = (True, start, end)" by simp
    note eq = parse_cmdline_unlocked_eq [OF free pa']
    from run r eq obtain c' where hit: "find ?P (cmd_head s) = Some c'"
      by (cases "find ?P (cmd_head s)") auto
    let ?s1 = "?s0\<lparr>locks := {c'}\<rparr>"
    let ?t = "s\<lparr>locks := {c'}\<rparr>"
    have t: "unlock_cmd_lock ?s1 = ?t"
      using free by (simp add: unlock_cmd_lock_def unlocked_def)
    from run eq hit
    obtain r' s2 where
      pargs: "parse_args E cmdline cmdlen c' (argc (cmds s c')) 0 0 end ?t = Inr (r', s2)"
      and fin: "parse_cmdline_tail E cmdline cmdlen c' r' s2 = Inr (r, s')"
      by (auto simp add: then_do_eq_Inr)
    from fin r obtain x where r': "r' = Some x" and same: "c' = c" and s': "s' = spinlock_unlock c s2"
      by (auto simp add: parse_cmdline_tail_def split: option.splits if_splits)
    have lookup: "then_do (lock_cmd_lock s) (\<lambda>s0. find_cmd cmdline start end (cmd_head s0) s0)
        = Inr (Some c, ?s1)"
      using hit same by (simp add: s0(1) find_cmd_unlocked [OF s0(2)])
    have held: "\<exists>err e sm. parse_args E cmdline cmdlen c m 0 0 end ?t = Inr (Some (err, e), sm)
        \<and> locks sm = {c}
        \<and> parse_args E cmdline cmdlen c (argc (cmds s c)) 0 0 end ?t
            = parse_args E cmdline cmdlen c (argc (cmds s c)) m err e sm"
      if "m \<le> argc (cmds s c)" for m
    proof -
      from parse_args_prefix [OF pargs [unfolded r'] le0 that [folded same]]
      obtain err e sm where part: "parse_args E cmdline cmdlen c' m 0 0 end ?t = Inr (Some (err, e), sm)"
        by auto
      from parse_args_locks [OF part] have "locks sm = {c'}"
        by simp
      moreover note parse_args_split [OF part le0 that [folded same]]
      ultimately show ?thesis
        using part same by blast
    qed
    show ?thesis
      using pa' lookup held pargs r' same s' t
      by (intro exI [of _ start] exI [of _ "end"] exI [of _ ?s1] exI [of _ x] exI [of _ s2]) simp
  qed
  show "kconsole_body E handler kcon cmdline s =
            (case r of
               None \<Rightarrow> Inr (True, s')
             | Some c \<Rightarrow>
                 then_do (handler (func (cmds s' c)) (argv (cmds s' c)) s') (\<lambda>s2. Inr (True, s2)))"
    if "cmdlen = strlen cmdline \<and> (kcon \<or> cmdline \<noteq> ''exit'')"
  proof (cases "cmdline = []")
    case True
    with that run have "r = None" and "s' = s"
      by (simp_all add: strlen_def parse_cmdline_empty)
    with True show ?thesis
      by (simp add: kconsole_body_def strlen_def)
  next
    case False
    from that have "\<not> (\<not> kcon \<and> strlen cmdline = 4 \<and> strncmp cmdline ''exit'' 4 = 0)"
      using exit_line [of cmdline] by (auto simp add: strlen_def)
    with that False run show ?thesis
      by (auto simp add: kconsole_body_def Let_def strlen_def split: option.split)
  qed
qed

theorem parse_cmdline_releases_locks_witness:
  "unlocked (ex_console [1, 2, 3, 4])
   \<and> (\<exists>s'. parse_cmdline ex_env ''call 12'' (strlen ''call 12'') (ex_console [1, 2, 3, 4])
              = Inr (Some 3, s')
          \<and> unlocked s'
          \<and> (\<exists>start end s1 y sm.
                then_do (lock_cmd_lock (ex_console [1, 2, 3, 4]))
                  (\<lambda>s0. find_cmd ''call 12'' start end (cmd_head s0) s0) = Inr (Some 3, s1)
                \<and> locks s1 = {3}
                \<and> parse_args ex_env ''call 12'' (strlen ''call 12'') 3 (argc (cmds s1 3)) 0 0 end
                     (unlock_cmd_lock s1) = Inr (Some y, sm)
                \<and> locks sm = {3})
          \<and> kconsole_body ex_env (\<lambda>f av t. Inr (printf ''done'' t)) True ''call 12''
               (ex_console [1, 2, 3, 4])
              = Inr (True, printf ''done'' s'))"
proof -
  have free: "unlocked (ex_console [1, 2, 3, 4])"
    by code_simp
  have "returned (parse_cmdline ex_env ''call 12'' (strlen ''call 12'') (ex_console [1, 2, 3, 4]))
          = Inr (Some 3, [], False, {})"
    by code_simp
  then obtain s' where
    run: "parse_cmdline ex_env ''call 12'' (strlen ''call 12'') (ex_console [1, 2, 3, 4])
            = Inr (Some 3, s')"
    by (auto simp add: returned_def split: sum.splits)
  have line: "strlen ''call 12'' = strlen ''call 12'' \<and> (True \<or> ''call 12'' \<noteq> ''exit'')"
    by simp
  note facts = parse_cmdline_releases_locks [OF free run, of True "\<lambda>f av t. Inr (printf ''done'' t)"]
  note released = facts [THEN conjunct1]
  from facts [THEN conjunct2, THEN conjunct1, rule_format, OF refl]
  obtain start "end" s1 where
    lookup: "then_do (lock_cmd_lock (ex_console [1, 2, 3, 4]))
               (\<lambda>s0. find_cmd ''call 12'' start end (cmd_head s0) s0) = Inr (Some 3, s1)"
    and taken: "locks s1 = {3}"
    and held: "\<forall>m \<le> argc (cmds s1 3). \<exists>err e sm.
                  parse_args ex_env ''call 12'' (strlen ''call 12'') 3 m 0 0 end (unlock_cmd_lock s1)
                    = Inr (Some (err, e), sm) \<and> locks sm = {3}
                  \<and> parse_args ex_env ''call 12'' (strlen ''call 12'') 3 (argc (cmds s1 3)) 0 0 end
                        (unlock_cmd_lock s1)
                      = parse_args ex_env ''call 12'' (strlen ''call 12'') 3 (argc (cmds s1 3))
                          m err e sm"
    by (elim exE conjE) (rule that)
  from held [rule_format, OF le_refl] obtain y sm where
    part: "parse_args ex_env ''call 12'' (strlen ''call 12'') 3 (argc (cmds s1 3)) 0 0 end
       (unlock_cmd_lock s1) = Inr (Some y, sm)" "locks sm = {3}"
    by (elim exE conjE) (rule that)
  have loop: "\<exists>start end s1 y sm.
                then_do (lock_cmd_lock (ex_console [1, 2, 3, 4]))
                  (\<lambda>s0. find_cmd ''call 12'' start end (cmd_head s0) s0) = Inr (Some 3, s1)
                \<and> locks s1 = {3}
                \<and> parse_args ex_env ''call 12'' (strlen ''call 12'') 3 (argc (cmds s1 3)) 0 0 end
                     (unlock_cmd_lock s1) = Inr (Some y, sm)
                \<and> locks sm = {3}"
    using lookup taken part
    by (intro exI [of _ start] exI [of _ "end"] exI [of _ s1] exI [of _ y] exI [of _ sm] conjI)
  from facts [THEN conjunct2, THEN conjunct2, rule_format, OF line]
  have body: "kconsole_body ex_env (\<lambda>f av t. Inr (printf ''done'' t)) True ''call 12''
               (ex_console [1, 2, 3, 4]) = Inr (True, printf ''done'' s')"
    by (simp only: option.case then_do_Inr)
  show ?thesis
    using free run released loop body
    by (intro conjI exI [of _ s'])
qed

text \<open>
  C4: the lookup of parse_cmdline compares a registered name with the typed token at the
  larger of the two lengths. So whenever the lookup answers a descriptor, whatever the
  list and the state, the typed token is not longer than that descriptor's name, and the
  name is what the command line holds from the first byte of the token on, at the length
  of the name: a typed name that is longer than a registered one never matches it.
\<close>

theorem find_cmd_never_shorter:
  assumes "parse_argument E cmdline (length cmdline) 0 = (True, start, end)"
    and "find_cmd cmdline start end xs s = Inr (Some c, s1)"
  shows "c \<in> set xs \<and> length (hd (tokens E cmdline)) \<le> strlen (name (cmds s c))
     \<and> name (cmds s c) = take (strlen (name (cmds s c))) (drop start cmdline)"
proof -
  have ne: "after_spaces E cmdline \<noteq> []"
    using assms(1) parse_argument_found_iff [of E cmdline] by simp
  from parse_argument_first [OF ne] assms(1)
  have tok_text: "drop start cmdline = after_spaces E cmdline"
    and tlen: "end - start + 1 = length (takeWhile (\<lambda>c. \<not> isspace E c) (after_spaces E cmdline))"
    by auto
  let ?nm = "name (cmds s c)"
  let ?T = "length (hd (tokens E cmdline))"
  have T: "?T = end - start + 1"
    using ne tlen by (simp add: hd_tokens)
  have fits: "?T \<le> length (drop start cmdline)"
    unfolding tok_text using ne by (simp add: hd_tokens length_takeWhile_le)
  from find_cmd_Some [OF assms(2)]
  have mem: "c \<in> set xs"
    and cmp: "strncmp ?nm (drop start cmdline) (max (strlen ?nm) (end - start + 1)) = 0"
    by simp_all
  from cmp have eq: "?nm = take (max (length ?nm) ?T) (drop start cmdline)"
    by (simp add: strncmp_eq_0_iff strlen_def T)
  have le: "?T \<le> length ?nm"
  proof (rule ccontr)
    assume "\<not> ?T \<le> length ?nm"
    then have "max (length ?nm) ?T = ?T" by simp
    with eq have "length ?nm = length (take ?T (drop start cmdline))" by simp
    also have "\<dots> = ?T" using fits by simp
    finally show False using \<open>\<not> ?T \<le> length ?nm\<close> by simp
  qed
  then have "max (length ?nm) ?T = length ?nm" by simp
  with eq have "?nm = take (length ?nm) (drop start cmdline)" by simp
  with mem le show ?thesis by (simp add: strlen_def)
qed

theorem find_cmd_never_shorter_witness:
  "parse_argument ex_env ''dumpall'' (length ''dumpall'') 0 = (True, 0, 6)
   \<and> find_cmd ''dumpall'' 0 6 [1, 2] (ex_console [1, 2])
        = Inr (Some 2, (ex_console [1, 2])\<lparr>locks := {2}\<rparr>)
   \<and> hd (tokens ex_env ''dumpall'') = ''dumpall''
   \<and> name (cmds (ex_console [1, 2]) 2) = ''dumpall''
   \<and> length (hd (tokens ex_env ''dumpall'')) \<le> strlen (name (cmds (ex_console [1, 2]) 2))"
proof -
  have pa: "parse_argument ex_env ''dumpall'' (length ''dumpall'') 0 = (True, 0, 6)"
    by code_simp
  have fc: "find_cmd ''dumpall'' 0 6 [1, 2] (ex_console [1, 2])
        = Inr (Some 2, (ex_console [1, 2])\<lparr>locks := {2}\<rparr>)"
    by (simp add: ex_console_simps strncmp_eq_0_iff)
  have "hd (tokens ex_env ''dumpall'') = ''dumpall''"
    by code_simp
  moreover have "name (cmds (ex_console [1, 2]) 2) = ''dumpall''"
    by (simp add: ex_console_simps)
  ultimately show ?thesis
    using find_cmd_never_shorter [OF pa fc] pa fc by simp
qed

text \<open>
  C6 (as stated): whenever a token remains after the declared arguments, parse fails with
  "too many arguments". After the loop over the arguments the code tests \<open>error\<close>
  before it looks for a further token: "call" declares one integer argument, the line
  "call nosuch extra" has two further tokens, and parse_cmdline returns none having
  printed only the message of the failed conversion.
\<close>

theorem parse_cmdline_too_many_counterexample:
  "tokens ex_env ''call nosuch extra'' = [''call'', ''nosuch'', ''extra'']
   \<and> argc (cmds (ex_console [1, 2, 3, 4]) 3) = 1
   \<and> returned (parse_cmdline ex_env ''call nosuch extra'' 17 (ex_console [1, 2, 3, 4]))
        = Inr (None, [''Symbol nosuch not found.'' @ [newline]], False, {})"
  by code_simp

text \<open>
  C6 (amended): let the first token of the line match the descriptor \<open>c\<close> (the first
  linked descriptor whose name compares equal to it), a well-formed descriptor with
  \<open>argc\<close> declared arguments, and let no lock be held. If fewer than \<open>argc\<close> further
  tokens are present, parse_cmdline returns none and the last line it prints is "Too few
  arguments.". If more than \<open>argc\<close> further tokens are present, parse_cmdline returns
  none as well. Then, if every declared argument is converted without an error, the last
  line printed is "Too many arguments."; and if the conversion of the argument before the
  extra token fails, the lines that conversion prints (at least one) are the last lines
  printed: the failed conversion is what is reported, and "Too many arguments." is not
  added to it.
\<close>

theorem parse_cmdline_argument_count:
  assumes "unlocked s"
    and "token_tails E cmdline = first # rest"
    and "find (\<lambda>h. strncmp (name (cmds s h)) first
               (max (strlen (name (cmds s h))) (length (takeWhile (\<lambda>c. \<not> isspace E c) first))) = 0)
           (cmd_head s) = Some c"
    and "wf_cmd (cmds s c)"
  shows "(length rest < argc (cmds s c) \<longrightarrow>
            (\<exists>s'. parse_cmdline E cmdline (length cmdline) s = Inr (None, s')
               \<and> console s' \<noteq> [] \<and> last (console s') = ''Too few arguments.'' @ [newline]))
       \<and> (argc (cmds s c) < length rest \<longrightarrow>
            (\<exists>s'. parse_cmdline E cmdline (length cmdline) s = Inr (None, s')
               \<and> ((\<forall>i < argc (cmds s c).
                      \<exists>a w p. convert_arg E (rest ! i)
                          (length (takeWhile (\<lambda>c. \<not> isspace E c) (rest ! i)))
                          (argv (cmds s c) ! i) = Inr (0, a, w, p))
                  \<longrightarrow> console s' \<noteq> [] \<and> last (console s') = ''Too many arguments.'' @ [newline])
               \<and> (\<forall>err a w p.
                     0 < argc (cmds s c)
                     \<and> convert_arg E (rest ! (argc (cmds s c) - 1))
                          (length (takeWhile (\<lambda>c. \<not> isspace E c) (rest ! (argc (cmds s c) - 1))))
                          (argv (cmds s c) ! (argc (cmds s c) - 1)) = Inr (err, a, w, p)
                     \<and> err \<noteq> 0
                  \<longrightarrow> p \<noteq> [] \<and> (\<exists>pre. console s' = pre @ p))))"
proof -
  let ?n = "argc (cmds s c)"
  let ?L = "length cmdline"
  let ?len = "\<lambda>t. length (takeWhile (\<lambda>c. \<not> isspace E c) t)"
  have ne: "after_spaces E cmdline \<noteq> []"
    using assms(2) token_tails_Nil [of E cmdline] by auto
  have "after_spaces E cmdline # token_tails E (after_token E (after_spaces E cmdline)) = first # rest"
    using assms(2) unfolding token_tails_Cons [OF ne] .
  then have first: "first = after_spaces E cmdline"
    and rest: "rest = token_tails E (after_token E (after_spaces E cmdline))"
    by auto
  from parse_argument_first [OF ne]
  obtain start "end" where
    pa: "parse_argument E cmdline ?L 0 = (True, start, end)"
    and tok_text: "drop start cmdline = first"
    and tlen: "end - start + 1 = length (takeWhile (\<lambda>c. \<not> isspace E c) first)"
    and e: "end + 1 \<le> ?L"
    and after: "drop (end + 1) cmdline = after_token E (after_spaces E cmdline)"
    unfolding first by blast
  have tails: "token_tails E (drop (end + 1) cmdline) = rest"
    unfolding after rest ..
  let ?s1 = "s\<lparr>locks := {c}\<rparr>"
  have eq: "parse_cmdline E cmdline ?L s =
      then_do (parse_args E cmdline ?L c ?n 0 0 end ?s1)
        (\<lambda>(r', s2). parse_cmdline_tail E cmdline ?L c r' s2)"
    unfolding parse_cmdline_unlocked_eq [OF assms(1) pa, unfolded tok_text tlen] assms(3)
    by simp
  have n: "?n \<le> length (argv (cmds ?s1 c))" and ok: "list_all arg_ok (argv (cmds ?s1 c))"
    using assms(4) by (simp_all add: wf_cmd_simps)
  have few: "\<exists>s'. parse_cmdline E cmdline ?L s = Inr (None, s')
               \<and> console s' \<noteq> [] \<and> last (console s') = ''Too few arguments.'' @ [newline]"
    if "length rest < ?n"
  proof -
    from that have "length (token_tails E (drop (end + 1) cmdline)) < ?n - 0"
      unfolding tails by simp
    from parse_args_too_few [OF e n ok this, of 0]
    show ?thesis
      unfolding eq by (auto simp add: parse_cmdline_tail_def)
  qed
  have many: "\<exists>s'. parse_cmdline E cmdline ?L s = Inr (None, s')
               \<and> ((\<forall>i < ?n. \<exists>a w p. convert_arg E (rest ! i) (?len (rest ! i))
                          (argv (cmds s c) ! i) = Inr (0, a, w, p))
                  \<longrightarrow> console s' \<noteq> [] \<and> last (console s') = ''Too many arguments.'' @ [newline])
               \<and> (\<forall>err a w p.
                     0 < ?n
                     \<and> convert_arg E (rest ! (?n - 1)) (?len (rest ! (?n - 1)))
                          (argv (cmds s c) ! (?n - 1)) = Inr (err, a, w, p)
                     \<and> err \<noteq> 0
                  \<longrightarrow> p \<noteq> [] \<and> (\<exists>pre. console s' = pre @ p))"
    if "?n < length rest"
  proof -
    from that have "?n - 0 \<le> length (token_tails E (drop (end + 1) cmdline))"
      unfolding tails by simp
    from parse_args_enough [OF e n ok this le0, of 0, unfolded tails]
    obtain err' e' s2 where
      run: "parse_args E cmdline ?L c ?n 0 0 end ?s1 = Inr (Some (err', e'), s2)"
      and e': "e' + 1 \<le> ?L"
      and left: "token_tails E (drop (e' + 1) cmdline) = drop (?n - 0) rest"
      and err_conv: "0 < ?n \<longrightarrow>
                 (\<exists>a w p. convert_arg E (rest ! (?n - 0 - 1)) (?len (rest ! (?n - 0 - 1)))
                      (argv (cmds ?s1 c) ! (?n - 1)) = Inr (err', a, w, p)
                    \<and> (\<exists>pre. console s2 = pre @ p))"
      and err_none: "0 = ?n \<longrightarrow> err' = 0 \<and> s2 = ?s1"
      by (elim exE conjE) (rule that)
    from left that have "token_tails E (drop (e' + 1) cmdline) \<noteq> []"
      by simp
    then have "after_spaces E (drop (e' + 1) cmdline) \<noteq> []"
      using token_tails_Nil by blast
    with e' have more: "fst (parse_argument E cmdline ?L (e' + 1))"
      by (simp add: parse_argument_eq)
    show ?thesis
    proof (cases "err' = 0")
      case True
      let ?s' = "spinlock_unlock c (printf (''Too many arguments.'' @ [newline]) s2)"
      have ret: "parse_cmdline E cmdline ?L s = Inr (None, ?s')"
        unfolding eq run using True more by (simp add: parse_cmdline_tail_def)
      have said: "console ?s' \<noteq> [] \<and> last (console ?s') = ''Too many arguments.'' @ [newline]"
        by (simp add: spinlock_unlock_def printf_def)
      have "err = 0"
        if "0 < ?n" and "convert_arg E (rest ! (?n - 1)) (?len (rest ! (?n - 1)))
               (argv (cmds s c) ! (?n - 1)) = Inr (err, a, w, p)" for err a w p
        using that err_conv True by auto
      with ret said show ?thesis
        by (intro exI [of _ ?s']) blast
    next
      case False
      let ?s' = "spinlock_unlock c s2"
      have ret: "parse_cmdline E cmdline ?L s = Inr (None, ?s')"
        unfolding eq run using False by (simp add: parse_cmdline_tail_def)
      from False err_none have pos: "0 < ?n"
        by (cases "?n") auto
      with err_conv obtain a' w' p' pre where
        conv: "convert_arg E (rest ! (?n - 1)) (?len (rest ! (?n - 1)))
                 (argv (cmds s c) ! (?n - 1)) = Inr (err', a', w', p')"
        and out: "console s2 = pre @ p'"
        by auto
      have printed: "p' \<noteq> []"
        using conv False by (rule convert_arg_error_prints)
      have failed: "\<not> (\<forall>i < ?n. \<exists>a w p. convert_arg E (rest ! i) (?len (rest ! i))
                          (argv (cmds s c) ! i) = Inr (0, a, w, p))"
      proof
        assume "\<forall>i < ?n. \<exists>a w p. convert_arg E (rest ! i) (?len (rest ! i))
                          (argv (cmds s c) ! i) = Inr (0, a, w, p)"
        with pos have "\<exists>a w p. convert_arg E (rest ! (?n - 1)) (?len (rest ! (?n - 1)))
                          (argv (cmds s c) ! (?n - 1)) = Inr (0, a, w, p)"
          by simp
        with conv False show False
          by auto
      qed
      have "p \<noteq> [] \<and> (\<exists>pre. console ?s' = pre @ p)"
        if "convert_arg E (rest ! (?n - 1)) (?len (rest ! (?n - 1)))
               (argv (cmds s c) ! (?n - 1)) = Inr (err, a, w, p)" for err a w p
        using that conv printed out by (auto simp add: spinlock_unlock_def)
      with ret failed show ?thesis
        by (intro exI [of _ ?s']) blast
    qed
  qed
  from few many show ?thesis by blast
qed

theorem parse_cmdline_argument_count_witness:
  "unlocked (ex_console [1, 2, 3, 4]) \<and> wf_cmd (cmds (ex_console [1, 2, 3, 4]) 3)
   \<and> argc (cmds (ex_console [1, 2, 3, 4]) 3) = 1
   \<and> token_tails ex_env ''call'' = [''call'']
   \<and> (\<exists>s'. parse_cmdline ex_env ''call'' (length ''call'') (ex_console [1, 2, 3, 4]) = Inr (None, s')
          \<and> last (console s') = ''Too few arguments.'' @ [newline])
   \<and> token_tails ex_env ''call 1 2'' = [''call 1 2'', ''1 2'', ''2'']
   \<and> (\<exists>s'. parse_cmdline ex_env ''call 1 2'' (length ''call 1 2'') (ex_console [1, 2, 3, 4]) = Inr (None, s')
          \<and> last (console s') = ''Too many arguments.'' @ [newline])
   \<and> token_tails ex_env ''call no 2'' = [''call no 2'', ''no 2'', ''2'']
   \<and> (\<exists>s' pre. parse_cmdline ex_env ''call no 2'' (length ''call no 2'') (ex_console [1, 2, 3, 4])
                  = Inr (None, s')
          \<and> console s' = pre @ [''Symbol no not found.'' @ [newline]])"
proof -
  let ?s = "ex_console [1, 2, 3, 4]"
  have free: "unlocked ?s"
    by code_simp
  have wf: "wf_cmd (cmds ?s 3)"
    by code_simp
  have n: "argc (cmds ?s 3) = 1"
    by code_simp
  have few_tails: "token_tails ex_env ''call'' = [''call'']"
    by code_simp
  have few_cmd: "find (\<lambda>h. strncmp (name (cmds ?s h)) ''call''
               (max (strlen (name (cmds ?s h)))
                  (length (takeWhile (\<lambda>c. \<not> isspace ex_env c) ''call''))) = 0)
           (cmd_head ?s) = Some 3"
    by code_simp
  have many_tails: "token_tails ex_env ''call 1 2'' = [''call 1 2'', ''1 2'', ''2'']"
    by code_simp
  have many_cmd: "find (\<lambda>h. strncmp (name (cmds ?s h)) ''call 1 2''
               (max (strlen (name (cmds ?s h)))
                  (length (takeWhile (\<lambda>c. \<not> isspace ex_env c) ''call 1 2''))) = 0)
           (cmd_head ?s) = Some 3"
    by code_simp
  have conv: "convert_arg ex_env ''1 2'' (length (takeWhile (\<lambda>c. \<not> isspace ex_env c) ''1 2''))
           (argv (cmds ?s 3) ! 0) = Inr (0, (ex_arg ARG_TYPE_INT 0 0)\<lparr>intval := 1\<rparr>, None, [])"
    by code_simp
  have bad_tails: "token_tails ex_env ''call no 2'' = [''call no 2'', ''no 2'', ''2'']"
    by code_simp
  have bad_cmd: "find (\<lambda>h. strncmp (name (cmds ?s h)) ''call no 2''
               (max (strlen (name (cmds ?s h)))
                  (length (takeWhile (\<lambda>c. \<not> isspace ex_env c) ''call no 2''))) = 0)
           (cmd_head ?s) = Some 3"
    by code_simp
  have bad_conv: "convert_arg ex_env ''no 2'' (length (takeWhile (\<lambda>c. \<not> isspace ex_env c) ''no 2''))
           (argv (cmds ?s 3) ! 0)
             = Inr (1, ex_arg ARG_TYPE_INT 0 0, None, [''Symbol no not found.'' @ [newline]])"
    by code_simp
  from parse_cmdline_argument_count [OF free few_tails few_cmd wf] n
  have few: "\<exists>s'. parse_cmdline ex_env ''call'' (length ''call'') ?s = Inr (None, s')
          \<and> last (console s') = ''Too few arguments.'' @ [newline]"
    by auto
  from parse_cmdline_argument_count [OF free many_tails many_cmd wf] n conv
  have many: "\<exists>s'. parse_cmdline ex_env ''call 1 2'' (length ''call 1 2'') ?s = Inr (None, s')
          \<and> last (console s') = ''Too many arguments.'' @ [newline]"
    by auto
  from parse_cmdline_argument_count [OF free bad_tails bad_cmd wf] n bad_conv
  have bad: "\<exists>s' pre. parse_cmdline ex_env ''call no 2'' (length ''call no 2'') ?s = Inr (None, s')
          \<and> console s' = pre @ [''Symbol no not found.'' @ [newline]]"
    by (auto simp del: One_nat_def)
  from free wf n few_tails few many_tails many bad_tails bad show ?thesis
    by blast
qed

subsection \<open>Claims about the line editor\<close>

text \<open>
  C7 (the code fails the claim): caret position \<open>\<le>\<close> current length \<open>\<le>\<close> maximum length
  does not hold at every point of a session. With lines of at most 4 bytes, the line
  "abcd" fills row 0 of the ring and its terminator lands in row 1; after the next line
  "e" was stored there, two presses of "previous" load the string that starts in row 0,
  which is now "abcde": the current length is 5. With lines of at most 3 bytes and the
  commands "dump" and "dumpall" registered, the tabulator after "du" finds the hint "mp",
  inserts the one byte that has room and then advances the caret by the length of the
  whole hint: the caret is at 4 in a line of length 3.
\<close>

theorem clever_readline_invariant_broken:
  "observed (read_lines ex_limits ex_env (ex_console [1, 2, 3, 4]) ''k''
      [submit ''abcd'', submit ''e'', previous 2 @ [newline]] (kconsole_init ex_limits))
     = Inr ([''abcd'', ''e'', ''abcde''], 1, 5, 5)
   \<and> observed (read_lines \<lparr>MAX_CMDLINE = 3, KCONSOLE_HISTORY = 3\<rparr> ex_env
        (ex_console [1, 2, 3, 4]) ''k'' [''du'' @ [CHR 0x09, newline]]
        (kconsole_init \<lparr>MAX_CMDLINE = 3, KCONSOLE_HISTORY = 3\<rparr>))
     = Inr ([''dum''], 1, 3, 4)"
  by code_simp

text \<open>
  C8, as stated: after N non-empty submissions, "previous" pressed N times walks back
  through the N most recent lines. It does not hold for every way of submitting a line.
  The ring has one cursor, \<open>histposition\<close>, which the "previous" key moves and which a
  non-empty submission advances from wherever it stands. With a ring of 3 rows: "ab" and
  "c" are stored in rows 0 and 1; the third session presses "previous" twice, which loads
  "ab" from row 0, and submits it, which leaves the cursor at row 1, not at row 3 mod 3;
  the fourth session presses "previous" twice and finds the empty row 2, not "c", the
  line submitted before the last.
\<close>

theorem previous_after_recall_counterexample:
  "observed (read_lines ex_limits ex_env (ex_console [1, 2, 3, 4]) ''k''
      [submit ''ab'', submit ''c'', previous 2 @ [newline], previous 2 @ [newline]]
      (kconsole_init ex_limits))
     = Inr ([''ab'', ''c'', ''ab'', ''''], 2, 0, 0)"
  by code_simp

text \<open>
  C8, amended: on a fresh console let at most \<open>KCONSOLE_HISTORY\<close> sessions be held in
  which ordinary bytes are typed and the keys backspace, delete, home, end, left and right
  are used, and let each of them return a line that is not empty and is shorter than
  \<open>MAX_CMDLINE\<close>; \<open>lines\<close> are the lines returned, in order. Then a session that
  presses "previous" \<open>k\<close> times (\<open>k > 0\<close>) and Enter returns what row
  \<open>(length lines - k) mod KCONSOLE_HISTORY\<close> of the ring holds and writes nothing into
  the ring. For \<open>k\<close> up to the number of lines that is the \<open>k\<close>-th most recent line,
  so \<open>k\<close> presses walk through the lines in reverse order of their submission. With
  more presses the cursor wraps modulo the number of rows: it finds the empty string in a
  row not used yet (as long as those rows do hold the empty string, which is asked only
  for this case) and, after a full turn, the lines again. The session leaves the history
  cursor at the row it returned when that row is empty, and one row behind it otherwise:
  a submission advances the cursor from the row the "previous" key has reached.
\<close>

theorem previous_recovers_lines:
  assumes keys: "list_all (list_all edit_key) sessions"
    and run: "read_lines L E K prompt (map session sessions) (kconsole_init L) = Inr (lines, s)"
    and ok: "list_all (\<lambda>l. l \<noteq> [] \<and> length l < MAX_CMDLINE L) lines"
    and room: "length sessions \<le> KCONSOLE_HISTORY L"
    and k: "0 < k"
    and sizes: "0 < MAX_CMDLINE L" "0 < KCONSOLE_HISTORY L"
    and unused: "length lines < k \<Longrightarrow>
        \<forall>r. length lines \<le> r \<and> r < KCONSOLE_HISTORY L
          \<longrightarrow> string_at s (int (r * MAX_CMDLINE L)) = []"
    and j: "j = nat ((int (length lines) - int k) mod int (KCONSOLE_HISTORY L))"
  shows "(\<exists>s'. read_lines L E K prompt (map session sessions @ [previous k @ [newline]])
                (kconsole_init L) = Inr (lines @ [slot_line lines j], s')
              \<and> history s' = history s
              \<and> histposition s' = (if slot_line lines j = [] then int j
                                    else (int j + 1) mod int (KCONSOLE_HISTORY L)))
     \<and> (k \<le> length lines \<longrightarrow> slot_line lines j = rev lines ! (k - 1))"
proof (rule conjI)
  let ?M = "MAX_CMDLINE L" and ?H = "KCONSOLE_HISTORY L"
  let ?N = "length lines"
  obtain k' where k': "k = Suc k'"
    using k by (cases k) auto
  have init: "length (history (kconsole_init L)) = ?H * ?M"
    "histposition (kconsole_init L) = int (length ([] :: string list) mod ?H)"
    "\<forall>r < length ([] :: string list). row_holds L (kconsole_init L) r ([] ! r)"
    by (simp_all add: kconsole_init_def)
  have room': "length ([] :: string list) + length sessions \<le> ?H"
    using room by simp
  from read_lines_sessions [OF keys run ok room' init]
  have N: "?N = length sessions" and size: "length (history s) = ?H * ?M"
    and hp: "histposition s = int (?N mod ?H)"
    and rows: "\<forall>r < ?N. row_holds L s r (lines ! r)"
    by simp_all
  have range: "0 \<le> histposition s" "histposition s < int ?H"
    using hp sizes by simp_all
  have turn: "(histposition s - int t) mod int ?H = (int ?N - int t) mod int ?H" for t
    unfolding hp by (simp add: zmod_int mod_diff_left_eq)
  have visited: "row_holds L s (nat ((histposition s - int t) mod int ?H))
               (slot_line lines (nat ((histposition s - int t) mod int ?H)))"
    if t: "1 \<le> t \<and> t \<le> Suc k'" for t
  proof -
    let ?r = "nat ((int ?N - int t) mod int ?H)"
    have "0 \<le> (int ?N - int t) mod int ?H" "(int ?N - int t) mod int ?H < int ?H"
      using sizes by simp_all
    then have rH: "?r < ?H"
      by (simp add: nat_less_iff)
    have "row_holds L s ?r (slot_line lines ?r)"
    proof (cases "?r < ?N")
      case True
      with rows show ?thesis
        by (simp add: slot_line_def)
    next
      case False
      have "?N < k"
      proof (rule ccontr)
        assume "\<not> ?N < k"
        with t k' have le: "t \<le> ?N" by simp
        with N room t have "(int ?N - int t) mod int ?H = int (?N - t)"
          by (simp add: of_nat_diff)
        then have "?r = ?N - t" by simp
        with t le have "?r < ?N" by arith
        with False show False ..
      qed
      from False rH have "?N \<le> ?r \<and> ?r < ?H"
        by simp
      with unused [OF \<open>?N < k\<close>, rule_format, of ?r]
      have "string_at s (int (?r * ?M)) = []"
        by (simp only:)
      moreover have "?r * ?M < length (history s)"
        unfolding size using rH sizes by simp
      ultimately have "row_holds L s ?r []"
        using sizes(1) by (rule empty_row_holds)
      with False show ?thesis
        by (simp add: slot_line_def)
    qed
    then show ?thesis
      unfolding turn .
  qed
  have j': "j = nat ((histposition s - int (Suc k')) mod int ?H)"
    unfolding turn j k' ..
  from clever_readline_previous_rows [of k' L s "slot_line lines" j E K prompt,
      OF _ range j'] visited
  obtain s' where
    recall: "clever_readline L E K prompt (previous k @ [newline]) s
       = Inr (int (j * ?M), s', [])"
    and str: "string_at s' (int (j * ?M)) = slot_line lines j"
    and same: "history s' = history s"
    and hp': "histposition s' = (if slot_line lines j = [] then int j
                                 else (int j + 1) mod int ?H)"
    unfolding k' by blast
  from recall str
  have "read_lines L E K prompt [previous k @ [newline]] s = Inr ([slot_line lines j], s')"
    by simp
  from read_lines_append_Inr [OF run this] same hp'
  show "\<exists>s'. read_lines L E K prompt (map session sessions @ [previous k @ [newline]])
                (kconsole_init L) = Inr (lines @ [slot_line lines j], s')
              \<and> history s' = history s
              \<and> histposition s' = (if slot_line lines j = [] then int j
                                    else (int j + 1) mod int ?H)"
    by blast
next
  show "k \<le> length lines \<longrightarrow> slot_line lines j = rev lines ! (k - 1)"
  proof
    assume le: "k \<le> length lines"
    have "length lines \<le> KCONSOLE_HISTORY L"
    proof -
      have init: "length (history (kconsole_init L)) = KCONSOLE_HISTORY L * MAX_CMDLINE L"
        "histposition (kconsole_init L) = int (length ([] :: string list) mod KCONSOLE_HISTORY L)"
        "\<forall>r < length ([] :: string list). row_holds L (kconsole_init L) r ([] ! r)"
        by (simp_all add: kconsole_init_def)
      have room': "length ([] :: string list) + length sessions \<le> KCONSOLE_HISTORY L"
        using room by simp
      from read_lines_sessions [OF keys run ok room' init] room show ?thesis
        by simp
    qed
    with le k have "(int (length lines) - int k) mod int (KCONSOLE_HISTORY L)
        = int (length lines - k)"
      by (simp add: of_nat_diff)
    then have "j = length lines - k"
      unfolding j by simp
    moreover have "length lines - k < length lines" "k - 1 < length lines"
      "length lines - Suc (k - 1) = length lines - k"
      using le k by simp_all
    ultimately show "slot_line lines j = rev lines ! (k - 1)"
      by (simp add: slot_line_def rev_nth)
  qed
qed

theorem previous_recovers_lines_witness:
  "list_all (list_all edit_key)
     [[Key_byte (CHR ''a''), Key_byte (CHR ''x''), Key_backspace, Key_byte (CHR ''b'')],
      [Key_byte (CHR ''c'')]]
   \<and> (\<exists>s. read_lines ex_limits ex_env (ex_console [1, 2, 3, 4]) ''k''
            (map session
               [[Key_byte (CHR ''a''), Key_byte (CHR ''x''), Key_backspace, Key_byte (CHR ''b'')],
                [Key_byte (CHR ''c'')]])
            (kconsole_init ex_limits) = Inr ([''ab'', ''c''], s)
        \<and> string_at s (int (2 * MAX_CMDLINE ex_limits)) = [])
   \<and> (\<exists>s'. read_lines ex_limits ex_env (ex_console [1, 2, 3, 4]) ''k''
            (map session
               [[Key_byte (CHR ''a''), Key_byte (CHR ''x''), Key_backspace, Key_byte (CHR ''b'')],
                [Key_byte (CHR ''c'')]] @ [previous 2 @ [newline]])
            (kconsole_init ex_limits) = Inr ([''ab'', ''c''] @ [''ab''], s')
        \<and> histposition s' = 1)
   \<and> rev [''ab'', ''c''] ! (2 - 1) = ''ab''
   \<and> (\<exists>s'. read_lines ex_limits ex_env (ex_console [1, 2, 3, 4]) ''k''
            (map session
               [[Key_byte (CHR ''a''), Key_byte (CHR ''x''), Key_backspace, Key_byte (CHR ''b'')],
                [Key_byte (CHR ''c'')]] @ [previous 4 @ [newline]])
            (kconsole_init ex_limits) = Inr ([''ab'', ''c''] @ [''c''], s')
        \<and> histposition s' = 2)"
proof -
  let ?W = "[[Key_byte (CHR ''a''), Key_byte (CHR ''x''), Key_backspace, Key_byte (CHR ''b'')],
             [Key_byte (CHR ''c'')]]"
  let ?run = "read_lines ex_limits ex_env (ex_console [1, 2, 3, 4]) ''k'' (map session ?W)
                (kconsole_init ex_limits)"
  have keys: "list_all (list_all edit_key) ?W"
    by code_simp
  have "case ?run of
          Inl f \<Rightarrow> False
        | Inr (ls, s) \<Rightarrow> ls = [''ab'', ''c''] \<and> string_at s (int (2 * MAX_CMDLINE ex_limits)) = []"
    by code_simp
  then obtain s where run: "?run = Inr ([''ab'', ''c''], s)"
    and empty: "string_at s (int (2 * MAX_CMDLINE ex_limits)) = []"
    by (auto split: sum.splits)
  have ok: "list_all (\<lambda>l. l \<noteq> [] \<and> length l < MAX_CMDLINE ex_limits) [''ab'', ''c'']"
    by (simp add: ex_limits_def)
  have room: "length ?W \<le> KCONSOLE_HISTORY ex_limits"
    by (simp add: ex_limits_def)
  have sizes: "0 < MAX_CMDLINE ex_limits" "0 < KCONSOLE_HISTORY ex_limits"
    by (simp_all add: ex_limits_def)
  have two: "0 < (2 :: nat)" and four: "0 < (4 :: nat)"
    by simp_all
  have unused2: "\<forall>r. length [''ab'', ''c''] \<le> r \<and> r < KCONSOLE_HISTORY ex_limits
          \<longrightarrow> string_at s (int (r * MAX_CMDLINE ex_limits)) = []"
    if "length [''ab'', ''c''] < (2 :: nat)"
    using that by simp
  have unused4: "\<forall>r. length [''ab'', ''c''] \<le> r \<and> r < KCONSOLE_HISTORY ex_limits
          \<longrightarrow> string_at s (int (r * MAX_CMDLINE ex_limits)) = []"
  proof (intro allI impI)
    fix r :: nat
    assume "length [''ab'', ''c''] \<le> r \<and> r < KCONSOLE_HISTORY ex_limits"
    then have "r = 2"
      by (simp add: ex_limits_def)
    with empty show "string_at s (int (r * MAX_CMDLINE ex_limits)) = []"
      by simp
  qed
  have j0: "0 = nat ((int (length [''ab'', ''c'']) - int 2) mod int (KCONSOLE_HISTORY ex_limits))"
    by (simp add: ex_limits_def)
  have j1: "1 = nat ((int (length [''ab'', ''c'']) - int 4) mod int (KCONSOLE_HISTORY ex_limits))"
    by (simp add: ex_limits_def)
  note first = previous_recovers_lines [OF keys run ok room two sizes unused2 j0]
  note wrap = previous_recovers_lines [OF keys run ok room four sizes unused4 j1]
  have slot0: "slot_line [''ab'', ''c''] 0 = ''ab''" and slot1: "slot_line [''ab'', ''c''] 1 = ''c''"
    by (simp_all add: slot_line_def)
  from first [THEN conjunct1] obtain s1 where
    "read_lines ex_limits ex_env (ex_console [1, 2, 3, 4]) ''k''
       (map session ?W @ [previous 2 @ [newline]]) (kconsole_init ex_limits)
       = Inr ([''ab'', ''c''] @ [''ab''], s1)"
    "histposition s1 = 1"
    unfolding slot0 by (auto simp add: ex_limits_def)
  then have a: "\<exists>s'. read_lines ex_limits ex_env (ex_console [1, 2, 3, 4]) ''k''
       (map session ?W @ [previous 2 @ [newline]]) (kconsole_init ex_limits)
       = Inr ([''ab'', ''c''] @ [''ab''], s') \<and> histposition s' = 1"
    by blast
  from first [THEN conjunct2] have b: "rev [''ab'', ''c''] ! (2 - 1) = ''ab''"
    unfolding slot0 by simp
  from wrap [THEN conjunct1] obtain s2 where
    "read_lines ex_limits ex_env (ex_console [1, 2, 3, 4]) ''k''
       (map session ?W @ [previous 4 @ [newline]]) (kconsole_init ex_limits)
       = Inr ([''ab'', ''c''] @ [''c''], s2)"
    "histposition s2 = 2"
    unfolding slot1 by (auto simp add: ex_limits_def)
  then have c: "\<exists>s'. read_lines ex_limits ex_env (ex_console [1, 2, 3, 4]) ''k''
       (map session ?W @ [previous 4 @ [newline]]) (kconsole_init ex_limits)
       = Inr ([''ab'', ''c''] @ [''c''], s') \<and> histposition s' = 2"
    by blast
  from run empty have r: "\<exists>s. ?run = Inr ([''ab'', ''c''], s)
        \<and> string_at s (int (2 * MAX_CMDLINE ex_limits)) = []"
    by blast
  show ?thesis
    using keys r a b c by (intro conjI)
qed

text \<open>
  C10 (the code fails the claim): the returned line is not in every case terminated
  inside the ring. A row has \<open>MAX_CMDLINE\<close> bytes and a line may grow to \<open>MAX_CMDLINE\<close>
  bytes, so the terminator of a full line is written one byte behind its row; in the last
  row of the ring (reached by one press of "previous" on a fresh console) that is one
  byte behind the array.
\<close>

theorem clever_readline_terminator_outside:
  "clever_readline ex_limits ex_env (ex_console [1, 2, 3, 4]) ''k''
     (previous 1 @ submit ''abcd'') (kconsole_init ex_limits) = Inl OutOfBounds"
  by code_simp

end
